theory Spec2Isabelle
  imports Main
begin

section \<open>Texts, characters and the string primitives used by the extension\<close>

text \<open>
  The file \<^verbatim>\<open>src/extension.ts\<close> holds two revisions of the extension one after the other.
  This development embeds the second one (split value and filter arguments, extent by
  indentation): the class \<^verbatim>\<open>JQParser\<close> with \<^verbatim>\<open>parse\<close> and \<^verbatim>\<open>isInComment\<close>, the semantic
  token provider and the completion provider.

  A document text is a JavaScript string. It is modelled as a \<^typ>\<open>string\<close>; one \<^typ>\<open>char\<close>
  stands for one code unit, restricted to the range 0..255. The regular expression class
  \<^verbatim>\<open>\s\<close> and the characters removed by \<^verbatim>\<open>trim\<close> and \<^verbatim>\<open>trimStart\<close> are the same set in
  JavaScript (white space and line terminators); in the modelled range these are
  TAB, LF, VT, FF, CR, SPACE and NBSP.
\<close>

abbreviation LF :: char where "LF \<equiv> CHR 0x0A"
abbreviation CR :: char where "CR \<equiv> CHR 0x0D"

definition isSpace :: "char \<Rightarrow> bool" where
  "isSpace c = (of_char c \<in> {9::nat, 10, 11, 12, 13, 32, 160})"

text \<open>The classes \<^verbatim>\<open>[a-zA-Z_]\<close> and \<^verbatim>\<open>[a-zA-Z0-9_]\<close>.\<close>

definition isIdentStart :: "char \<Rightarrow> bool" where
  "isIdentStart c =
     (let n = (of_char c :: nat)
      in (97 \<le> n \<and> n \<le> 122) \<or> (65 \<le> n \<and> n \<le> 90) \<or> n = 95)"

definition isIdentChar :: "char \<Rightarrow> bool" where
  "isIdentChar c =
     (let n = (of_char c :: nat)
      in (97 \<le> n \<and> n \<le> 122) \<or> (65 \<le> n \<and> n \<le> 90) \<or> (48 \<le> n \<and> n \<le> 57) \<or> n = 95)"

definition trimStart :: "string \<Rightarrow> string" where
  "trimStart s = dropWhile isSpace s"

definition trimEnd :: "string \<Rightarrow> string" where
  "trimEnd s = rev (dropWhile isSpace (rev s))"

definition trim :: "string \<Rightarrow> string" where
  "trim s = trimEnd (trimStart s)"

definition startsWith :: "string \<Rightarrow> string \<Rightarrow> bool" where
  "startsWith s p = (take (length p) s = p)"

text \<open>\<^verbatim>\<open>s.split(c)\<close> for a one-character separator: the empty string gives one empty piece.\<close>

fun split_char :: "char \<Rightarrow> string \<Rightarrow> string list" where
  "split_char sep [] = [[]]"
| "split_char sep (c # cs) =
     (if c = sep then [] # split_char sep cs
      else (case split_char sep cs of [] \<Rightarrow> [[c]] | p # ps \<Rightarrow> (c # p) # ps))"

text \<open>
  \<^verbatim>\<open>text.split(/\r?\n/)\<close>: scanning from the left, a separator is a LF, or a CR
  immediately followed by a LF. A CR that is not followed by a LF stays in its line.
\<close>

fun splitLines :: "string \<Rightarrow> string list" where
  "splitLines [] = [[]]"
| "splitLines (c # cs) =
     (if c = LF then [] # splitLines cs
      else if c = CR \<and> take 1 cs = [LF] then [] # splitLines (drop 1 cs)
      else (case splitLines cs of [] \<Rightarrow> [[c]] | l # ls \<Rightarrow> (c # l) # ls))"

text \<open>
  \<^verbatim>\<open>indexOf\<close>, \<^verbatim>\<open>lastIndexOf\<close> and \<^verbatim>\<open>substring\<close> for a one-character needle, with
  JavaScript's clamping of the position arguments; the result \<open>-1\<close> means "not found".
\<close>

definition indexOf :: "string \<Rightarrow> char \<Rightarrow> int \<Rightarrow> int" where
  "indexOf s c from =
     (let k = min (nat (max from 0)) (length s); post = drop k s
      in if c \<in> set post then int k + int (length (takeWhile (\<lambda>x. x \<noteq> c) post)) else - 1)"

definition lastIndexOf :: "string \<Rightarrow> char \<Rightarrow> int \<Rightarrow> int" where
  "lastIndexOf s c pos =
     (let pre = take (nat (max pos 0) + 1) s
      in if c \<in> set pre
         then int (length pre) - 1 - int (length (takeWhile (\<lambda>x. x \<noteq> c) (rev pre)))
         else - 1)"

definition substring :: "string \<Rightarrow> int \<Rightarrow> int \<Rightarrow> string" where
  "substring s a b =
     (let a' = min (nat (max a 0)) (length s); b' = min (nat (max b 0)) (length s);
          lo = min a' b'; hi = max a' b'
      in take (hi - lo) (drop lo s))"

section \<open>Definition recovery: \<^verbatim>\<open>JQParser.parse\<close>\<close>

record JQHeader =
  name :: string
  valueArgs :: "string list"
  filterArgs :: "string list"
  startLine :: nat

text \<open>The entries of the array \<^verbatim>\<open>defs\<close> of the first pass.\<close>

record JQDef = JQHeader +
  indent :: nat

text \<open>The interface \<^verbatim>\<open>JQFunction\<close>.\<close>

record JQFunction = JQHeader +
  endLine :: nat

text \<open>
  \<^verbatim>\<open>defRegex.exec(line)\<close> for
  \<^verbatim>\<open>/^(\s*)def\s+([a-zA-Z_][a-zA-Z0-9_]*)(?:\(([^)]*)\))?\s*:/\<close>.
  The result holds the groups 1, 2 and 3; group 3 is \<open>None\<close> when the optional
  parenthesis did not take part in the match.

  Every greedy repetition of this expression is followed by something its own class
  excludes (the \<^verbatim>\<open>d\<close> after \<^verbatim>\<open>\s*\<close>, an identifier start after \<^verbatim>\<open>\s+\<close>, one of
  \<^verbatim>\<open>(\<close>, white space, \<^verbatim>\<open>:\<close> after the identifier, the \<^verbatim>\<open>)\<close> after \<^verbatim>\<open>[^)]*\<close>), so only the
  longest repetition can lead to a match and backtracking never finds another one.
  When the identifier is followed by \<^verbatim>\<open>(\<close>, skipping the optional group leaves
  \<^verbatim>\<open>\s*:\<close> in front of that \<^verbatim>\<open>(\<close>, which fails.
\<close>

definition defRegex_exec :: "string \<Rightarrow> (string \<times> string \<times> string option) option" where
  "defRegex_exec line =
     (let g1 = takeWhile isSpace line; r1 = dropWhile isSpace line
      in if \<not> startsWith r1 ''def'' then None
      else
        let r2 = drop 3 r1; r3 = dropWhile isSpace r2
        in if takeWhile isSpace r2 = [] then None
        else if r3 = [] \<or> \<not> isIdentStart (hd r3) then None
        else
          let g2 = takeWhile isIdentChar r3; r4 = dropWhile isIdentChar r3;
              (g3, r5) =
                (if startsWith r4 ''('' \<and> CHR '')'' \<in> set (drop 1 r4)
                 then (Some (takeWhile (\<lambda>c. c \<noteq> CHR '')'') (drop 1 r4)),
                       drop 1 (dropWhile (\<lambda>c. c \<noteq> CHR '')'') (drop 1 r4)))
                 else (None, r4))
          in if startsWith (dropWhile isSpace r5) '':'' then Some (g1, g2, g3) else None)"

text \<open>
  \<^verbatim>\<open>rawArgsStr.split(';').map(s => s.trim()).filter(s => s)\<close>: the last filter keeps
  the non-empty strings.
\<close>

definition splitArgs :: "string \<Rightarrow> string list" where
  "splitArgs rawArgsStr =
     filter (\<lambda>s. s \<noteq> []) (map trim (split_char (CHR '';'') rawArgsStr))"

text \<open>The body of the first loop for a line that matched, at index \<open>i\<close>.\<close>

definition mkDef :: "(string \<times> string \<times> string option) \<Rightarrow> nat \<Rightarrow> JQDef" where
  "mkDef m i =
     (case m of (g1, g2, g3) \<Rightarrow>
        let ind = length g1;
            funcName = g2;
            rawArgsStr = (case g3 of None \<Rightarrow> [] | Some s \<Rightarrow> s);
            args = splitArgs rawArgsStr
        in \<lparr> name = funcName,
             valueArgs = filter (\<lambda>a. startsWith a ''$'') args,
             filterArgs = filter (\<lambda>a. \<not> startsWith a ''$'') args,
             startLine = i,
             indent = ind \<rparr>)"

text \<open>
  First pass. The loop runs over the lines with their index \<open>i\<close>; \<open>defs\<close> is the array
  the loop pushes to.
\<close>

fun collectDefs :: "string list \<Rightarrow> nat \<Rightarrow> JQDef list \<Rightarrow> JQDef list" where
  "collectDefs [] i defs = defs"
| "collectDefs (l # ls) i defs =
     (case defRegex_exec l of
        None \<Rightarrow> collectDefs ls (i + 1) defs
      | Some m \<Rightarrow> collectDefs ls (i + 1) (defs @ [mkDef m i]))"

text \<open>
  Reading an array out of range gives \<^verbatim>\<open>undefined\<close> in JavaScript, and calling
  \<^verbatim>\<open>trim\<close> on it, or reading its \<^verbatim>\<open>length\<close>, raises a \<^verbatim>\<open>TypeError\<close>. That is the only
  way \<^verbatim>\<open>parse\<close> can raise, so the reads \<^verbatim>\<open>lines[j]\<close> of the second pass are checked.
  The other error, \<^verbatim>\<open>IllegalArgument\<close>, is what the host raises when a position with a
  negative line or column is built; the completion provider can run into it.
\<close>

datatype error = TypeError | IllegalArgument

definition at :: "'a list \<Rightarrow> nat \<Rightarrow> error + 'a" where
  "at xs i = (if i < length xs then Inr (xs ! i) else Inl TypeError)"

text \<open>
  The inner loop of the second pass, from index \<open>j\<close> on, for a header of indentation
  \<open>ind\<close>. Falling out of the loop leaves \<^verbatim>\<open>endLine = lines.length - 1\<close>. Line numbers are
  natural numbers: the loop starts at \<open>startLine + 1\<close>, so \<open>j - 1\<close> is never below the start
  line, and the array of lines is never empty (lemmas \<open>spec_endLine_bounds\<close> and
  \<open>splitLines_nonempty\<close> below), so neither subtraction is cut off at zero.
\<close>

function scanEnd :: "string list \<Rightarrow> nat \<Rightarrow> nat \<Rightarrow> error + nat" where
  "scanEnd lines ind j =
     (if j < length lines then
        (case at lines j of
           Inl e \<Rightarrow> Inl e
         | Inr l \<Rightarrow>
             let line = trim l
             in if line = [] \<or> startsWith line ''#'' then scanEnd lines ind (j + 1)
                else
                  let lineIndent = length l - length (trimStart l)
                  in if lineIndent \<le> ind then Inr (j - 1)
                     else scanEnd lines ind (j + 1))
      else Inr (length lines - 1))"
  by pat_completeness auto
termination
  by (relation "measure (\<lambda>(lines, ind, j). length lines - j)") auto

declare scanEnd.simps [simp del]

text \<open>Second pass: one record per entry of \<open>defs\<close>, pushed to \<open>functions\<close>.\<close>

fun computeEnds :: "string list \<Rightarrow> JQDef list \<Rightarrow> JQFunction list \<Rightarrow> error + JQFunction list" where
  "computeEnds lines [] functions = Inr functions"
| "computeEnds lines (currentDef # defs) functions =
     (case scanEnd lines (indent currentDef) (startLine currentDef + 1) of
        Inl err \<Rightarrow> Inl err
      | Inr e \<Rightarrow>
          computeEnds lines defs
            (functions @
             [\<lparr> name = name currentDef,
                valueArgs = valueArgs currentDef,
                filterArgs = filterArgs currentDef,
                startLine = startLine currentDef,
                endLine = e \<rparr>]))"

text \<open>\<^verbatim>\<open>JQParser.parse(text)\<close>: the lines, the first pass, the second pass.\<close>

definition parse :: "string \<Rightarrow> error + JQFunction list" where
  "parse text =
     (let lines = splitLines text;
          defs = collectDefs lines 0 []
      in computeEnds lines defs [])"

text \<open>
  \<^verbatim>\<open>JQParser.isInComment(text, offset)\<close>; the test at its end is \<^verbatim>\<open>/^\s*#/.test(line)\<close>.
\<close>

definition commentRegex_test :: "string \<Rightarrow> bool" where
  "commentRegex_test line = startsWith (dropWhile isSpace line) ''#''"

definition isInComment :: "string \<Rightarrow> nat \<Rightarrow> bool" where
  "isInComment text offset =
     (let lineStart = lastIndexOf text LF (int offset - 1) + 1;
          nl = indexOf text LF (lineStart + 1);
          line = substring text lineStart (if nl = - 1 then int (length text) else nl)
      in commentRegex_test line)"

section \<open>Token classification: the semantic tokens provider\<close>

text \<open>
  The matches of \<^verbatim>\<open>/([a-zA-Z_][a-zA-Z0-9_]*)/g\<close> that the \<^verbatim>\<open>while\<close> loop visits, each with
  its index: \<^verbatim>\<open>exec\<close> finds the leftmost identifier start at or after \<^verbatim>\<open>lastIndex\<close>, takes
  the longest run of identifier characters and leaves \<^verbatim>\<open>lastIndex\<close> behind it. The first
  argument is the offset of the remaining text.
\<close>

function tokenMatches :: "nat \<Rightarrow> string \<Rightarrow> (nat \<times> string) list" where
  "tokenMatches off [] = []"
| "tokenMatches off (c # cs) =
     (if isIdentStart c then
        (let word = c # takeWhile isIdentChar cs
         in (off, word) # tokenMatches (off + length word) (dropWhile isIdentChar cs))
      else tokenMatches (off + 1) cs)"
  by pat_completeness auto
termination
  by (relation "measure (\<lambda>(off, s). length s)") (auto simp: length_dropWhile_le less_Suc_eq_le)

text \<open>
  \<^verbatim>\<open>document.positionAt(offset)\<close> belongs to the host editor. The host gives the text of a
  document with one line separator throughout (LF or CR LF), and a position is the pair
  of the zero-based line and the column: the line of an offset is the number of LF before
  it, which is also the index of its line in \<^verbatim>\<open>text.split(/\r?\n/)\<close>, and the column is the
  distance to the start of that line.
\<close>

definition positionAt :: "string \<Rightarrow> nat \<Rightarrow> nat \<times> nat" where
  "positionAt text offset =
     (let pre = take offset text
      in (length (filter (\<lambda>c. c = LF) pre), length (takeWhile (\<lambda>c. c \<noteq> LF) (rev pre))))"

text \<open>
  The provider pushes the token type \<^verbatim>\<open>'parameter'\<close> in its first branch and \<^verbatim>\<open>'function'\<close>
  in both its second branch (user-defined functions) and its third branch (built-in
  functions). The category records which of the three branches pushed.
\<close>

datatype category = Parameter | FunctionUser | FunctionBuiltin

definition tokenType :: "category \<Rightarrow> string" where
  "tokenType c = (case c of Parameter \<Rightarrow> ''parameter'' | FunctionUser \<Rightarrow> ''function''
                  | FunctionBuiltin \<Rightarrow> ''function'')"

text \<open>\<^verbatim>\<open>arg.startsWith('$') ? arg.substring(1) : arg\<close>\<close>

definition stripSigil :: "string \<Rightarrow> string" where
  "stripSigil arg = (if startsWith arg ''$'' then drop 1 arg else arg)"

text \<open>The set \<^verbatim>\<open>allParams\<close>, filled by the nested \<^verbatim>\<open>forEach\<close> loops.\<close>

definition allParams :: "JQFunction list \<Rightarrow> string set" where
  "allParams userFunctions =
     fold (\<lambda>f acc.
             fold (\<lambda>arg acc. insert arg acc) (filterArgs f)
               (fold (\<lambda>arg acc. insert (stripSigil arg) acc) (valueArgs f) acc))
          userFunctions {}"

definition getContextFunction :: "JQFunction list \<Rightarrow> nat \<Rightarrow> JQFunction option" where
  "getContextFunction userFunctions line =
     find (\<lambda>f. line \<ge> startLine f \<and> line \<le> endLine f) userFunctions"

text \<open>
  The body of the loop after the comment test, for a word on a line. The list of built-in
  names is imported from \<^verbatim>\<open>builtins.json\<close>, a data file that is not among the sources; it
  is the parameter \<open>builtins\<close> of every definition that uses it.
\<close>

definition classifyWord :: "string list \<Rightarrow> JQFunction list \<Rightarrow> nat \<Rightarrow> string \<Rightarrow> category option" where
  "classifyWord builtins userFunctions line word =
     (let contextFunc = getContextFunction userFunctions line;
          isParam =
            (case contextFunc of
               None \<Rightarrow> False
             | Some cf \<Rightarrow>
                 let isValueParam = list_ex (\<lambda>arg. stripSigil arg = word) (valueArgs cf);
                     isFilterParam = list_ex (\<lambda>arg. arg = word) (filterArgs cf)
                 in isValueParam \<or> isFilterParam)
      in if isParam then Some Parameter
         else if word \<in> set (map name userFunctions) then Some FunctionUser
         else if word \<in> set builtins \<and> word \<notin> allParams userFunctions then Some FunctionBuiltin
         else None)"

definition classifyToken ::
    "string list \<Rightarrow> string \<Rightarrow> JQFunction list \<Rightarrow> nat \<times> string \<Rightarrow> category option" where
  "classifyToken builtins text userFunctions m =
     (case m of (offset, word) \<Rightarrow>
        if isInComment text offset then None
        else classifyWord builtins userFunctions (fst (positionAt text offset)) word)"

text \<open>The loop over the matches; \<open>out\<close> collects what was pushed: offset, word, category.\<close>

fun classifyLoop ::
    "string list \<Rightarrow> string \<Rightarrow> JQFunction list \<Rightarrow> (nat \<times> string) list \<Rightarrow>
     (nat \<times> string \<times> category) list \<Rightarrow> (nat \<times> string \<times> category) list" where
  "classifyLoop builtins text userFunctions [] out = out"
| "classifyLoop builtins text userFunctions (m # ms) out =
     (case classifyToken builtins text userFunctions m of
        None \<Rightarrow> classifyLoop builtins text userFunctions ms out
      | Some c \<Rightarrow> classifyLoop builtins text userFunctions ms (out @ [(fst m, snd m, c)]))"

definition classifyTokens ::
    "string list \<Rightarrow> string \<Rightarrow> JQFunction list \<Rightarrow> (nat \<times> string \<times> category) list" where
  "classifyTokens builtins text userFunctions =
     classifyLoop builtins text userFunctions (tokenMatches 0 text) []"

record semanticToken =
  tokLine :: nat
  tokChar :: nat
  tokLength :: nat
  tokType :: string

definition pushToken :: "string \<Rightarrow> nat \<times> string \<times> category \<Rightarrow> semanticToken" where
  "pushToken text t =
     (case t of (offset, word, c) \<Rightarrow>
        \<lparr> tokLine = fst (positionAt text offset), tokChar = snd (positionAt text offset),
          tokLength = length word, tokType = tokenType c \<rparr>)"

definition provideDocumentSemanticTokens :: "string list \<Rightarrow> string \<Rightarrow> error + semanticToken list" where
  "provideDocumentSemanticTokens builtins text =
     (case parse text of
        Inl err \<Rightarrow> Inl err
      | Inr userFunctions \<Rightarrow> Inr (map (pushToken text) (classifyTokens builtins text userFunctions)))"

section \<open>Completion: the completion item provider\<close>

datatype itemKind = Variable | Function

datatype insertion = PlainText string | SnippetString string

record CompletionItem =
  label :: string
  kind :: itemKind
  detail :: "string option"
  sortText :: "string option"
  insertText :: "insertion option"
  filterText :: "string option"

text \<open>Decimal digits of a number, as a template literal prints it.\<close>

function showNat :: "nat \<Rightarrow> string" where
  "showNat n = (if n < 10 then [char_of (48 + n)] else showNat (n div 10) @ [char_of (48 + n mod 10)])"
  by pat_completeness auto
termination
  by (relation "measure id") auto

declare showNat.simps [simp del]

fun join :: "string \<Rightarrow> string list \<Rightarrow> string" where
  "join sep [] = []"
| "join sep [x] = x"
| "join sep (x # y # ys) = x @ sep @ join sep (y # ys)"

text \<open>
  \<^verbatim>\<open>position.translate(lineDelta, characterDelta)\<close> of the host: it builds the position
  \<^verbatim>\<open>new Position(line + lineDelta, character + characterDelta)\<close>, and the constructor raises
  when the line or the column is negative.
\<close>

definition translate :: "nat \<times> nat \<Rightarrow> int \<Rightarrow> int \<Rightarrow> error + nat \<times> nat" where
  "translate position lineDelta characterDelta =
     (case position of (line, character) \<Rightarrow>
        if int line + lineDelta < 0 \<or> int character + characterDelta < 0 then Inl IllegalArgument
        else Inr (nat (int line + lineDelta), nat (int character + characterDelta)))"

text \<open>
  The item of a value parameter. \<open>charBeforeCursor\<close> is the character in front of the
  cursor as the provider computes it.
\<close>

definition valueItem :: "JQFunction \<Rightarrow> string \<Rightarrow> string \<Rightarrow> CompletionItem" where
  "valueItem currentFunc charBeforeCursor arg =
     (let fullVarName = (if startsWith arg ''$'' then arg else ''$'' @ arg);
          paramName = stripSigil arg;
          isTriggeredByDollar = (charBeforeCursor = ''$'')
      in \<lparr> label = fullVarName, kind = Variable,
           detail = Some (''Value parameter of '' @ name currentFunc),
           sortText = Some ''0000'',
           insertText = Some (PlainText (if isTriggeredByDollar then paramName else fullVarName)),
           filterText = (if isTriggeredByDollar then Some paramName else None) \<rparr>)"

text \<open>
  The callback of \<^verbatim>\<open>currentFunc.valueArgs.forEach\<close> for one argument. It builds the range
  \<^verbatim>\<open>new vscode.Range(position.translate(0, -1), position)\<close> first, and only then tests
  \<^verbatim>\<open>position.character > 0\<close> to read the text of that range: at column 0 the call of
  \<^verbatim>\<open>translate\<close> raises before the test is reached. \<open>rangeText\<close> is what the host returns
  for the text of the range.
\<close>

definition valueArgStep ::
    "JQFunction \<Rightarrow> nat \<times> nat \<Rightarrow> string \<Rightarrow> string \<Rightarrow> error + CompletionItem" where
  "valueArgStep currentFunc position rangeText arg =
     (case translate position 0 (- 1) of
        Inl err \<Rightarrow> Inl err
      | Inr rangeStart \<Rightarrow>
          let charBeforeCursor = (if snd position > 0 then rangeText else [])
          in Inr (valueItem currentFunc charBeforeCursor arg))"

text \<open>The loop \<^verbatim>\<open>currentFunc.valueArgs.forEach\<close>; a raise in the callback ends it.\<close>

fun valueArgsLoop ::
    "JQFunction \<Rightarrow> nat \<times> nat \<Rightarrow> string \<Rightarrow> string list \<Rightarrow> CompletionItem list \<Rightarrow>
     error + CompletionItem list" where
  "valueArgsLoop currentFunc position rangeText [] completions = Inr completions"
| "valueArgsLoop currentFunc position rangeText (arg # args) completions =
     (case valueArgStep currentFunc position rangeText arg of
        Inl err \<Rightarrow> Inl err
      | Inr item \<Rightarrow> valueArgsLoop currentFunc position rangeText args (completions @ [item]))"

definition filterItem :: "JQFunction \<Rightarrow> string \<Rightarrow> CompletionItem" where
  "filterItem currentFunc arg =
     \<lparr> label = arg, kind = Variable,
       detail = Some (''Filter parameter of '' @ name currentFunc),
       sortText = Some ''0001'',
       insertText = Some (PlainText arg),
       filterText = None \<rparr>"

text \<open>The placeholders \<^verbatim>\<open>${1:a}\<close>, \<^verbatim>\<open>${2:b}\<close>, ... of the arguments from index \<open>idx\<close> on.\<close>

fun placeholders :: "nat \<Rightarrow> string list \<Rightarrow> string list" where
  "placeholders idx [] = []"
| "placeholders idx (arg # args) =
     (''${'' @ showNat (idx + 1) @ '':'' @ stripSigil arg @ ''}'') # placeholders (idx + 1) args"

definition functionItem :: "JQFunction \<Rightarrow> CompletionItem" where
  "functionItem f =
     (let allArgs = valueArgs f @ filterArgs f
      in \<lparr> label = name f, kind = Function,
           detail = Some ''User defined function'',
           sortText = None,
           insertText =
             (if length allArgs > 0
              then Some (SnippetString (name f @ ''('' @ join ''; '' (placeholders 0 allArgs) @ '')''))
              else Some (PlainText (name f))),
           filterText = None \<rparr>)"

definition builtinItem :: "string \<Rightarrow> CompletionItem" where
  "builtinItem b =
     \<lparr> label = b, kind = Function, detail = None, sortText = None, insertText = None,
       filterText = None \<rparr>"

text \<open>
  \<^verbatim>\<open>provideCompletionItems(document, position)\<close>. The position is given by its line and
  column; \<open>rangeText\<close> is what the host returns for the one-character range in front of
  the cursor. Every \<^verbatim>\<open>forEach\<close> pushes to \<open>completions\<close> in its own order.
\<close>

definition provideCompletionItems ::
    "string list \<Rightarrow> string \<Rightarrow> nat \<Rightarrow> nat \<Rightarrow> string \<Rightarrow> error + CompletionItem list" where
  "provideCompletionItems builtins text line character rangeText =
     (case parse text of
        Inl err \<Rightarrow> Inl err
      | Inr functions \<Rightarrow>
          let currentFunc = find (\<lambda>f. line \<ge> startLine f \<and> line \<le> endLine f) functions;
              completions0 = []
          in case (case currentFunc of
                     None \<Rightarrow> Inr completions0
                   | Some cf \<Rightarrow>
                       (case valueArgsLoop cf (line, character) rangeText (valueArgs cf) completions0 of
                          Inl err \<Rightarrow> Inl err
                        | Inr completions \<Rightarrow>
                            Inr (fold (\<lambda>arg acc. acc @ [filterItem cf arg]) (filterArgs cf) completions)))
             of
               Inl err \<Rightarrow> Inl err
             | Inr completions1 \<Rightarrow>
                 let completions2 =
                       fold (\<lambda>f acc.
                               if (case currentFunc of None \<Rightarrow> True | Some cf \<Rightarrow> name f \<noteq> name cf)
                               then acc @ [functionItem f] else acc)
                            functions completions1;
                     completions3 = fold (\<lambda>b acc. acc @ [builtinItem b]) builtins completions2
                 in Inr completions3)"

section \<open>Reference formulations\<close>

text \<open>
  The notions the properties below are stated with. They are not part of the extension.

  The indentation of a line is the length of its leading white space; the extent scan
  skips the lines that are empty after trimming or whose trimmed content starts with
  \<^verbatim>\<open>#\<close>; \<open>spec_endLine lines H N\<close> is the end line as the indentation rule words it, for a
  header at line \<open>H\<close> of indentation \<open>N\<close>: one less than the first line after \<open>H\<close> that is
  not skipped and is indented by at most \<open>N\<close>, and the last line index when there is none.
\<close>

definition leadingWs :: "string \<Rightarrow> nat" where
  "leadingWs l = length (takeWhile isSpace l)"

definition skippedLine :: "string \<Rightarrow> bool" where
  "skippedLine l = (trim l = [] \<or> startsWith (trim l) ''#'')"

definition spec_endLine :: "string list \<Rightarrow> nat \<Rightarrow> nat \<Rightarrow> nat" where
  "spec_endLine lines H N =
     (case find (\<lambda>j. \<not> skippedLine (lines ! j) \<and> leadingWs (lines ! j) \<le> N) [H + 1 ..< length lines] of
        Some j \<Rightarrow> j - 1
      | None \<Rightarrow> length lines - 1)"

text \<open>
  The header lines of a document are the indices of the lines that the header pattern
  matches; \<open>recordAt lines i\<close> is the record of the header at line \<open>i\<close>.
\<close>

definition isHeaderAt :: "string list \<Rightarrow> nat \<Rightarrow> bool" where
  "isHeaderAt lines i = (defRegex_exec (lines ! i) \<noteq> None)"

definition defAt :: "string list \<Rightarrow> nat \<Rightarrow> JQDef" where
  "defAt lines i = mkDef (the (defRegex_exec (lines ! i))) i"

definition headerLines :: "string list \<Rightarrow> nat list" where
  "headerLines lines = filter (isHeaderAt lines) [0 ..< length lines]"

definition recordAt :: "string list \<Rightarrow> nat \<Rightarrow> JQFunction" where
  "recordAt lines i =
     (let d = defAt lines i
      in \<lparr> name = name d, valueArgs = valueArgs d, filterArgs = filterArgs d, startLine = i,
           endLine = spec_endLine lines i (indent d) \<rparr>)"

definition toFunction :: "string list \<Rightarrow> JQDef \<Rightarrow> JQFunction" where
  "toFunction lines d =
     \<lparr> name = name d, valueArgs = valueArgs d, filterArgs = filterArgs d,
       startLine = startLine d, endLine = spec_endLine lines (startLine d) (indent d) \<rparr>"

text \<open>
  The line of a token is the line of its position, taken from \<^verbatim>\<open>text.split(/\r?\n/)\<close>; the
  token is on a comment line when the trimmed text of that line starts with \<^verbatim>\<open>#\<close>.
  \<open>lastSeg s\<close> is the part of \<open>s\<close> after its last LF.
\<close>

definition lastSeg :: "string \<Rightarrow> string" where
  "lastSeg s = rev (takeWhile (\<lambda>c. c \<noteq> LF) (rev s))"

definition onCommentLine :: "string \<Rightarrow> nat \<Rightarrow> bool" where
  "onCommentLine txt offset = startsWith (trim (splitLines txt ! fst (positionAt txt offset))) ''#''"

text \<open>
  The parameter names of a record: the value parameters without their \<^verbatim>\<open>$\<close>, then the
  filter parameters as they are.
\<close>

definition paramNames :: "JQFunction \<Rightarrow> string list" where
  "paramNames f = map stripSigil (valueArgs f) @ filterArgs f"

text \<open>
  Two kinds of malformed header lines: a line without any colon, and a line with an
  opening parenthesis before its first colon and no closing parenthesis at all.
\<close>

definition absentColon :: "string \<Rightarrow> bool" where
  "absentColon l = (CHR '':'' \<notin> set l)"

definition unclosedParenthesis :: "string \<Rightarrow> bool" where
  "unclosedParenthesis l =
     (CHR ''('' \<in> set (takeWhile (\<lambda>c. c \<noteq> CHR '':'') l) \<and> CHR '')'' \<notin> set l)"

section \<open>Example documents\<close>

text \<open>The example of the specification, with the two records it names.\<close>

definition example_text :: string where
  "example_text =
     ''def foo($a; b):'' @ [LF] @ ''  $a + b'' @ [LF] @ ''def bar:'' @ [LF] @ ''  foo(1;2)''"

definition example_foo :: JQFunction where
  "example_foo = \<lparr>name = ''foo'', valueArgs = [''$a''], filterArgs = [''b''], startLine = 0, endLine = 1\<rparr>"

definition example_bar :: JQFunction where
  "example_bar = \<lparr>name = ''bar'', valueArgs = [], filterArgs = [], startLine = 2, endLine = 3\<rparr>"

text \<open>A filter parameter with the name of a built-in function, used in and after its definition.\<close>

definition shadow_text :: string where
  "shadow_text = ''def f(map): map'' @ [LF] @ ''map''"

definition shadow_f :: JQFunction where
  "shadow_f = \<lparr>name = ''f'', valueArgs = [], filterArgs = [''map''], startLine = 0, endLine = 0\<rparr>"

text \<open>A definition nested in another one; the parameter of the inner one is used on line 2.\<close>

definition nested_text :: string where
  "nested_text =
     ''def outer:'' @ [LF] @ ''  def inner(map):'' @ [LF] @ ''    map'' @ [LF] @ ''  inner(.)''"

definition nested_outer :: JQFunction where
  "nested_outer = \<lparr>name = ''outer'', valueArgs = [], filterArgs = [], startLine = 0, endLine = 3\<rparr>"

definition nested_inner :: JQFunction where
  "nested_inner = \<lparr>name = ''inner'', valueArgs = [], filterArgs = [''map''], startLine = 1, endLine = 2\<rparr>"

text \<open>A comment line, and a line with a \<^verbatim>\<open>#\<close> in the middle.\<close>

definition comment_text :: string where
  "comment_text = ''# map'' @ [LF] @ ''keys # map''"

text \<open>
  A header whose parenthesis is never closed, a header without a colon, and a well-formed
  header.
\<close>

definition malformed_text :: string where
  "malformed_text = ''def f(a: x'' @ [LF] @ ''def g x'' @ [LF] @ ''def h($b): $b''"

definition malformed_h :: JQFunction where
  "malformed_h = \<lparr>name = ''h'', valueArgs = [''$b''], filterArgs = [], startLine = 2, endLine = 2\<rparr>"

section \<open>The two passes of \<^verbatim>\<open>parse\<close> in closed form\<close>

lemma lineIndent_leadingWs: "length l - length (trimStart l) = leadingWs l"
proof -
  have "length l = length (takeWhile isSpace l) + length (dropWhile isSpace l)"
    by (metis length_append takeWhile_dropWhile_id)
  then show ?thesis by (simp add: trimStart_def leadingWs_def)
qed

lemma scanEnd_closed:
  "scanEnd lines ind j =
     Inr (case find (\<lambda>k. \<not> skippedLine (lines ! k) \<and> leadingWs (lines ! k) \<le> ind) [j ..< length lines] of
            Some k \<Rightarrow> k - 1 | None \<Rightarrow> length lines - 1)"
proof (induction lines ind j rule: scanEnd.induct)
  case (1 lines ind j)
  show ?case
  proof (cases "j < length lines")
    case False
    then show ?thesis by (subst scanEnd.simps) simp
  next
    case True
    then have upt: "[j ..< length lines] = j # [j + 1 ..< length lines]"
      by (simp add: upt_conv_Cons)
    have atj: "at lines j = Inr (lines ! j)" using True by (simp add: at_def)
    show ?thesis
    proof (cases "skippedLine (lines ! j)")
      case sk: True
      then have "scanEnd lines ind j = scanEnd lines ind (j + 1)"
        using True atj by (subst scanEnd.simps) (simp add: skippedLine_def)
      also have "\<dots> = Inr (case find (\<lambda>k. \<not> skippedLine (lines ! k) \<and> leadingWs (lines ! k) \<le> ind) [j + 1 ..< length lines] of
            Some k \<Rightarrow> k - 1 | None \<Rightarrow> length lines - 1)"
        using "1.IH"(1)[OF True atj refl] sk by (simp add: skippedLine_def)
      finally show ?thesis using sk by (simp add: upt)
    next
      case nsk: False
      show ?thesis
      proof (cases "leadingWs (lines ! j) \<le> ind")
        case le: True
        then have "scanEnd lines ind j = Inr (j - 1)"
          using True atj nsk by (subst scanEnd.simps) (simp add: skippedLine_def lineIndent_leadingWs)
        then show ?thesis using nsk le by (simp add: upt)
      next
        case gt: False
        then have "scanEnd lines ind j = scanEnd lines ind (j + 1)"
          using True atj nsk by (subst scanEnd.simps) (simp add: skippedLine_def lineIndent_leadingWs)
        also have "\<dots> = Inr (case find (\<lambda>k. \<not> skippedLine (lines ! k) \<and> leadingWs (lines ! k) \<le> ind) [j + 1 ..< length lines] of
            Some k \<Rightarrow> k - 1 | None \<Rightarrow> length lines - 1)"
          using "1.IH"(2)[OF True atj refl _ refl] nsk gt by (simp add: skippedLine_def lineIndent_leadingWs)
        finally show ?thesis using nsk gt by (simp add: upt)
      qed
    qed
  qed
qed

lemma computeEnds_closed:
  "computeEnds lines defs acc = Inr (acc @ map (toFunction lines) defs)"
  by (induction defs arbitrary: acc)
     (simp_all add: scanEnd_closed spec_endLine_def toFunction_def)

lemma collectDefs_closed:
  "i \<le> length lines \<Longrightarrow>
   collectDefs (drop i lines) i defs =
     defs @ map (defAt lines) (filter (isHeaderAt lines) [i ..< length lines])"
proof (induction "length lines - i" arbitrary: i defs)
  case 0
  then show ?case by simp
next
  case (Suc n)
  then have lt: "i < length lines" by simp
  have d: "drop i lines = lines ! i # drop (Suc i) lines"
    using lt by (simp add: Cons_nth_drop_Suc)
  have u: "[i ..< length lines] = i # [Suc i ..< length lines]"
    using lt by (simp add: upt_conv_Cons)
  have IH: "\<And>ds. collectDefs (drop (Suc i) lines) (Suc i) ds =
              ds @ map (defAt lines) (filter (isHeaderAt lines) [Suc i ..< length lines])"
    using Suc.hyps(1)[of "Suc i"] Suc.hyps(2) lt by simp
  show ?case
  proof (cases "defRegex_exec (lines ! i)")
    case None
    then show ?thesis unfolding d u by (simp add: IH isHeaderAt_def)
  next
    case (Some m)
    then show ?thesis unfolding d u by (simp add: IH isHeaderAt_def defAt_def)
  qed
qed

lemma startLine_defAt: "startLine (defAt lines i) = i"
  by (simp add: defAt_def mkDef_def Let_def split: prod.splits)

lemma toFunction_defAt: "toFunction lines (defAt lines i) = recordAt lines i"
  by (simp add: toFunction_def recordAt_def Let_def startLine_defAt)

lemma parse_closed: "parse text = Inr (map (recordAt (splitLines text)) (headerLines (splitLines text)))"
  using collectDefs_closed[of 0 "splitLines text" "[]"]
  by (simp add: parse_def Let_def computeEnds_closed headerLines_def toFunction_defAt)


lemma parse_example: "parse example_text = Inr [example_foo, example_bar]"
  by code_simp

lemma defRegex_exec_g1: "defRegex_exec l = Some (g1, g2, g3) \<Longrightarrow> g1 = takeWhile isSpace l"
  by (auto simp: defRegex_exec_def Let_def split: if_splits prod.splits)

lemma indent_defAt: "isHeaderAt lines i \<Longrightarrow> indent (defAt lines i) = leadingWs (lines ! i)"
  by (auto simp: isHeaderAt_def defAt_def mkDef_def Let_def leadingWs_def dest: defRegex_exec_g1)

lemma set_headerLines: "i \<in> set (headerLines lines) \<longleftrightarrow> i < length lines \<and> isHeaderAt lines i"
  by (auto simp: headerLines_def)

lemma distinct_headerLines: "distinct (headerLines lines)"
  by (simp add: headerLines_def)

lemma splitLines_nonempty: "splitLines s \<noteq> []"
  by (induction s rule: splitLines.induct) (auto split: list.splits)

lemma spec_endLine_bounds:
  assumes "H < length lines"
  shows "H \<le> spec_endLine lines H N" and "spec_endLine lines H N < length lines"
proof -
  let ?P = "\<lambda>j. \<not> skippedLine (lines ! j) \<and> leadingWs (lines ! j) \<le> N"
  show "H \<le> spec_endLine lines H N"
  proof (cases "find ?P [H + 1 ..< length lines]")
    case None
    then show ?thesis using assms by (simp add: spec_endLine_def)
  next
    case (Some j)
    then have "j \<in> set [H + 1 ..< length lines]"
      by (auto simp: find_Some_iff)
    then have "H \<le> j - 1" by auto
    then show ?thesis using Some by (simp add: spec_endLine_def)
  qed
  show "spec_endLine lines H N < length lines"
  proof (cases "find ?P [H + 1 ..< length lines]")
    case None
    then show ?thesis using assms by (simp add: spec_endLine_def)
  next
    case (Some j)
    then have "j \<in> set [H + 1 ..< length lines]"
      by (auto simp: find_Some_iff)
    then have "j - 1 < length lines" by auto
    then show ?thesis using Some by (simp add: spec_endLine_def)
  qed
qed

lemma spec_endLine_default:
  assumes "\<And>j. H < j \<Longrightarrow> j < length lines \<Longrightarrow> skippedLine (lines ! j) \<or> N < leadingWs (lines ! j)"
  shows "spec_endLine lines H N = length lines - 1"
proof -
  have n: "\<not> (\<not> skippedLine (lines ! j) \<and> leadingWs (lines ! j) \<le> N)"
    if "H < j" "j < length lines" for j
    using assms[OF that] by auto
  have "find (\<lambda>j. \<not> skippedLine (lines ! j) \<and> leadingWs (lines ! j) \<le> N) [H + 1 ..< length lines] = None"
    unfolding find_None_iff using n by auto
  then show ?thesis by (simp add: spec_endLine_def)
qed

lemma parse_set:
  assumes "parse text = Inr fs" and "r \<in> set fs"
  shows "startLine r < length (splitLines text)"
    and "isHeaderAt (splitLines text) (startLine r)"
    and "r = recordAt (splitLines text) (startLine r)"
proof -
  from assms obtain i where i: "i \<in> set (headerLines (splitLines text))" and r: "r = recordAt (splitLines text) i"
    by (auto simp: parse_closed)
  have s: "startLine r = i" using r by (simp add: recordAt_def Let_def)
  show "startLine r < length (splitLines text)" "isHeaderAt (splitLines text) (startLine r)"
    using i s by (simp_all add: set_headerLines)
  show "r = recordAt (splitLines text) (startLine r)" using r s by simp
qed

lemma endLine_recordAt:
  "isHeaderAt lines i \<Longrightarrow> endLine (recordAt lines i) = spec_endLine lines i (leadingWs (lines ! i))"
  by (simp add: recordAt_def Let_def indent_defAt)

section \<open>Extent of a definition\<close>

text \<open>
  Claim C1. For every document text and every record that \<^verbatim>\<open>parse\<close> returns, the record
  starts at a header line \<open>H\<close>, and with \<open>N\<close> the length of the leading white space of
  that line, its end line is the one the indentation rule gives: scanning the lines
  \<open>H + 1\<close> onward and skipping the lines that are empty after trimming or whose trimmed
  content starts with \<^verbatim>\<open>#\<close>, it is one less than the first line not skipped whose leading
  white space is not longer than \<open>N\<close>, and the last line index if there is none.
\<close>

theorem endLine_by_indentation:
  assumes "parse text = Inr fs" and "r \<in> set fs"
  shows "startLine r < length (splitLines text) \<and>
         defRegex_exec (splitLines text ! startLine r) \<noteq> None \<and>
         endLine r =
           spec_endLine (splitLines text) (startLine r) (leadingWs (splitLines text ! startLine r))"
proof -
  note p = parse_set[OF assms]
  have "endLine r = endLine (recordAt (splitLines text) (startLine r))" using p(3) by simp
  then show ?thesis using p(1,2) by (simp add: endLine_recordAt isHeaderAt_def)
qed

theorem endLine_by_indentation_witness:
  "parse example_text = Inr [example_foo, example_bar] \<and> example_foo \<in> set [example_foo, example_bar] \<and>
   startLine example_foo = 0 \<and> leadingWs (splitLines example_text ! 0) = 0 \<and>
   endLine example_foo = spec_endLine (splitLines example_text) 0 0 \<and>
   spec_endLine (splitLines example_text) 0 0 = 1"
proof -
  have h1: "parse example_text = Inr [example_foo, example_bar]" by (rule parse_example)
  have h2: "example_foo \<in> set [example_foo, example_bar]" by simp
  have s: "startLine example_foo = 0" by (simp add: example_foo_def)
  have w: "leadingWs (splitLines example_text ! 0) = 0" by code_simp
  have e: "spec_endLine (splitLines example_text) 0 0 = 1" by code_simp
  from endLine_by_indentation[OF h1 h2] show ?thesis using h1 s w e by simp
qed

text \<open>
  Claim C7. Every record that \<^verbatim>\<open>parse\<close> returns has \<open>startLine \<le> endLine\<close>, its end line is
  a valid line index of the document, and when no line after the header ends the
  extent (each one is skipped or indented deeper than the header) the end line is the
  last line of the document.
\<close>

theorem startLine_le_endLine:
  assumes "parse text = Inr fs" and "r \<in> set fs"
  shows "startLine r \<le> endLine r \<and> endLine r < length (splitLines text) \<and>
         ((\<forall>j. startLine r < j \<and> j < length (splitLines text) \<longrightarrow>
                skippedLine (splitLines text ! j) \<or>
                leadingWs (splitLines text ! startLine r) < leadingWs (splitLines text ! j))
          \<longrightarrow> endLine r = length (splitLines text) - 1)"
proof -
  note p = parse_set[OF assms]
  have e: "endLine r = spec_endLine (splitLines text) (startLine r) (leadingWs (splitLines text ! startLine r))"
    using p(3) endLine_recordAt[OF p(2)] by simp
  show ?thesis
    unfolding e using spec_endLine_bounds[OF p(1)] spec_endLine_default by blast
qed

theorem startLine_le_endLine_witness:
  "parse example_text = Inr [example_foo, example_bar] \<and> example_bar \<in> set [example_foo, example_bar] \<and>
   startLine example_bar \<le> endLine example_bar \<and> endLine example_bar < length (splitLines example_text) \<and>
   endLine example_bar = length (splitLines example_text) - 1"
proof -
  have h1: "parse example_text = Inr [example_foo, example_bar]" by (rule parse_example)
  have h2: "example_bar \<in> set [example_foo, example_bar]" by simp
  have l: "splitLines example_text = [''def foo($a; b):'', ''  $a + b'', ''def bar:'', ''  foo(1;2)'']" by code_simp
  have s: "startLine example_bar = 2" by (simp add: example_bar_def)
  have d: "\<forall>j. startLine example_bar < j \<and> j < length (splitLines example_text) \<longrightarrow>
                skippedLine (splitLines example_text ! j) \<or>
                leadingWs (splitLines example_text ! startLine example_bar) < leadingWs (splitLines example_text ! j)"
  proof (intro allI impI)
    fix j assume "startLine example_bar < j \<and> j < length (splitLines example_text)"
    then have "j = 3" by (simp add: s l)
    moreover have "leadingWs (splitLines example_text ! startLine example_bar) < leadingWs (splitLines example_text ! 3)"
      unfolding s by code_simp
    ultimately show "skippedLine (splitLines example_text ! j) \<or>
                leadingWs (splitLines example_text ! startLine example_bar) < leadingWs (splitLines example_text ! j)" by simp
  qed
  from startLine_le_endLine[OF h1 h2] d show ?thesis using h1 by simp
qed

section \<open>The classification loop in closed form\<close>

lemma classifyLoop_closed:
  "classifyLoop builtins txt fs ms out =
     out @ List.map_filter (\<lambda>m. map_option (\<lambda>c. (fst m, snd m, c)) (classifyToken builtins txt fs m)) ms"
  by (induction ms arbitrary: out) (auto simp: List.map_filter_simps split: option.splits)

lemma classifyTokens_set:
  "(off, w, c) \<in> set (classifyTokens builtins txt fs) \<longleftrightarrow>
     (off, w) \<in> set (tokenMatches 0 txt) \<and> classifyToken builtins txt fs (off, w) = Some c"
  by (force simp: classifyTokens_def classifyLoop_closed map_filter_def)

lemma filter_eq_singleton:
  "distinct xs \<Longrightarrow> i \<in> set xs \<Longrightarrow> filter (\<lambda>k. k = i) xs = [i]"
  by (induction xs) (auto simp: filter_empty_conv)

lemma startLine_recordAt: "startLine (recordAt lines i) = i"
  by (simp add: recordAt_def Let_def)

lemma records_at_line:
  assumes "i \<in> set (headerLines lines)"
  shows "filter (\<lambda>r. startLine r = i) (map (recordAt lines) (headerLines lines)) = [recordAt lines i]"
proof -
  have "filter (\<lambda>r. startLine r = i) (map (recordAt lines) (headerLines lines))
        = map (recordAt lines) (filter (\<lambda>k. k = i) (headerLines lines))"
    by (simp add: filter_map comp_def startLine_recordAt)
  then show ?thesis
    using filter_eq_singleton[OF distinct_headerLines assms] by simp
qed

section \<open>Headers and their records\<close>

text \<open>
  Claim C5. For every line that the header pattern recognises, \<^verbatim>\<open>parse\<close> returns exactly
  one record for that line; its name is the identifier of the header, and with the raw
  text between the parentheses (empty when there are none) split on \<^verbatim>\<open>;\<close>, each piece
  trimmed and the empty pieces dropped, the pieces starting with \<^verbatim>\<open>$\<close> are its value
  arguments and the others its filter arguments, each in source order.
\<close>

theorem one_record_per_header:
  assumes "parse txt = Inr fs"
    and "i < length (splitLines txt)"
    and "defRegex_exec (splitLines txt ! i) = Some (g1, funcName, g3)"
    and "pieces = filter (\<lambda>s. s \<noteq> [])
                    (map trim (split_char (CHR '';'') (case g3 of None \<Rightarrow> [] | Some raw \<Rightarrow> raw)))"
  shows "\<exists>r. filter (\<lambda>r. startLine r = i) fs = [r] \<and>
             name r = funcName \<and>
             valueArgs r = filter (\<lambda>a. startsWith a ''$'') pieces \<and>
             filterArgs r = filter (\<lambda>a. \<not> startsWith a ''$'') pieces"
proof -
  have h: "i \<in> set (headerLines (splitLines txt))"
    using assms(2,3) by (simp add: set_headerLines isHeaderAt_def)
  have fs: "fs = map (recordAt (splitLines txt)) (headerLines (splitLines txt))"
    using assms(1) by (simp add: parse_closed)
  have one: "filter (\<lambda>r. startLine r = i) fs = [recordAt (splitLines txt) i]"
    unfolding fs by (rule records_at_line[OF h])
  have "name (recordAt (splitLines txt) i) = funcName"
    and "valueArgs (recordAt (splitLines txt) i) = filter (\<lambda>a. startsWith a ''$'') pieces"
    and "filterArgs (recordAt (splitLines txt) i) = filter (\<lambda>a. \<not> startsWith a ''$'') pieces"
    using assms(3,4) by (simp_all add: recordAt_def defAt_def mkDef_def splitArgs_def Let_def)
  with one show ?thesis by blast
qed

theorem one_record_per_header_witness:
  "parse example_text = Inr [example_foo, example_bar] \<and>
   (0::nat) < length (splitLines example_text) \<and>
   defRegex_exec (splitLines example_text ! 0) = Some ([], ''foo'', Some ''$a; b'') \<and>
   filter (\<lambda>s. s \<noteq> []) (map trim (split_char (CHR '';'') ''$a; b'')) = [''$a'', ''b''] \<and>
   (\<exists>r. filter (\<lambda>r. startLine r = 0) [example_foo, example_bar] = [r] \<and>
        name r = ''foo'' \<and> valueArgs r = [''$a''] \<and> filterArgs r = [''b''])"
proof -
  have h1: "parse example_text = Inr [example_foo, example_bar]" by (rule parse_example)
  have h2: "(0::nat) < length (splitLines example_text)" by code_simp
  have h3: "defRegex_exec (splitLines example_text ! 0) = Some ([], ''foo'', Some ''$a; b'')" by code_simp
  have h4: "[''$a'', ''b''] = filter (\<lambda>s. s \<noteq> [])
         (map trim (split_char (CHR '';'') (case Some ''$a; b'' of None \<Rightarrow> [] | Some raw \<Rightarrow> raw)))" by code_simp
  have v: "filter (\<lambda>a. startsWith a ''$'') [''$a'', ''b''] = [''$a'']" by code_simp
  have f: "filter (\<lambda>a. \<not> startsWith a ''$'') [''$a'', ''b''] = [''b'']" by code_simp
  from one_record_per_header[OF h1 h2 h3 h4] show ?thesis
    unfolding v f using h1 h2 h3 h4 by simp
qed

lemma tokens_example:
  "tokenMatches 0 example_text =
     [(0, ''def''), (4, ''foo''), (9, ''a''), (12, ''b''), (19, ''a''), (23, ''b''),
      (25, ''def''), (29, ''bar''), (36, ''foo'')]"
  by code_simp

section \<open>The example of the specification\<close>

text \<open>
  Claim C2. On the example text \<^verbatim>\<open>parse\<close> returns exactly the record of \<^verbatim>\<open>foo\<close> (value
  argument \<^verbatim>\<open>$a\<close>, filter argument \<^verbatim>\<open>b\<close>, lines 0 to 1) followed by the record of \<^verbatim>\<open>bar\<close>
  (no arguments, lines 2 to 3), and with those records the token \<^verbatim>\<open>foo\<close> at offset 36,
  which is on line 3, is classified as a user function, whatever the built-in names are.
\<close>

theorem example_document:
  "parse example_text =
     Inr [\<lparr>name = ''foo'', valueArgs = [''$a''], filterArgs = [''b''], startLine = 0, endLine = 1\<rparr>,
          \<lparr>name = ''bar'', valueArgs = [], filterArgs = [], startLine = 2, endLine = 3\<rparr>] \<and>
   (36, ''foo'') \<in> set (tokenMatches 0 example_text) \<and>
   positionAt example_text 36 = (3, 2) \<and>
   (36, ''foo'', FunctionUser) \<in> set (classifyTokens builtins example_text
     [\<lparr>name = ''foo'', valueArgs = [''$a''], filterArgs = [''b''], startLine = 0, endLine = 1\<rparr>,
      \<lparr>name = ''bar'', valueArgs = [], filterArgs = [], startLine = 2, endLine = 3\<rparr>])"
proof -
  have p: "parse example_text =
     Inr [\<lparr>name = ''foo'', valueArgs = [''$a''], filterArgs = [''b''], startLine = 0, endLine = 1\<rparr>,
          \<lparr>name = ''bar'', valueArgs = [], filterArgs = [], startLine = 2, endLine = 3\<rparr>]"
    using parse_example by (simp add: example_foo_def example_bar_def)
  have t: "(36, ''foo'') \<in> set (tokenMatches 0 example_text)"
    by (simp add: tokens_example)
  have pos: "positionAt example_text 36 = (3, 2)" by code_simp
  have nc: "\<not> isInComment example_text 36" by code_simp
  have c: "classifyToken builtins example_text
     [\<lparr>name = ''foo'', valueArgs = [''$a''], filterArgs = [''b''], startLine = 0, endLine = 1\<rparr>,
      \<lparr>name = ''bar'', valueArgs = [], filterArgs = [], startLine = 2, endLine = 3\<rparr>] (36, ''foo'') = Some FunctionUser"
    by (simp add: classifyToken_def nc pos classifyWord_def getContextFunction_def)
  show ?thesis using p t pos c by (simp add: classifyTokens_set)
qed

section \<open>Lines of the document and lines of \<^verbatim>\<open>isInComment\<close>\<close>

text \<open>
  \<^verbatim>\<open>isInComment\<close> cuts the line of an offset out of the text between two LF, while the
  parser and the host count lines of \<^verbatim>\<open>text.split(/\r?\n/)\<close>. For the offset of a token the
  two lines differ at most by a CR at the end, and the comment test gives the same result
  on both.
\<close>

lemma startsWith_single: "startsWith s [c] \<longleftrightarrow> s \<noteq> [] \<and> hd s = c"
  by (cases s) (auto simp: startsWith_def)

lemma trimEnd_Cons:
  "\<not> isSpace c \<Longrightarrow>
   trimEnd (c # cs) = c # (if \<forall>x\<in>set cs. isSpace x then [] else trimEnd cs)"
  by (simp add: trimEnd_def dropWhile_append)

lemma commentRegex_test_trim: "commentRegex_test l \<longleftrightarrow> startsWith (trim l) ''#''"
proof (cases "dropWhile isSpace l")
  case Nil
  have a: "commentRegex_test l = False"
    unfolding commentRegex_test_def Nil by (simp add: startsWith_def)
  have b: "trim l = []"
    unfolding trim_def trimStart_def Nil by (simp add: trimEnd_def)
  show ?thesis unfolding a b by (simp add: startsWith_def)
next
  case (Cons c cs)
  then have "\<not> isSpace c" by (metis hd_dropWhile list.sel(1) list.distinct(1))
  from trimEnd_Cons[OF this] obtain r where r: "trimEnd (c # cs) = c # r" by blast
  have a: "commentRegex_test l = (c = CHR ''#'')"
    unfolding commentRegex_test_def Cons by (simp add: startsWith_single)
  have b: "trim l = c # r"
    unfolding trim_def trimStart_def Cons by (rule r)
  show ?thesis unfolding a b by (simp add: startsWith_single)
qed

lemma split_char_nonempty: "split_char c s \<noteq> []"
  by (induction s) (auto split: list.splits)

lemma lines_rel:
  "list_all2 (\<lambda>a b. a = b \<or> a = b @ [CR]) (split_char LF s) (splitLines s)"
proof (induction s rule: splitLines.induct)
  case 1
  then show ?case by simp
next
  case (2 c cs)
  show ?case
  proof (cases "c = LF")
    case True
    then show ?thesis using 2(1) by simp
  next
    case nlf: False
    show ?thesis
    proof (cases "c = CR \<and> take 1 cs = [LF]")
      case True
      then obtain cs' where cs: "cs = LF # cs'" by (cases cs) auto
      have "list_all2 (\<lambda>a b. a = b \<or> a = b @ [CR]) (split_char LF cs') (splitLines cs')"
        using 2(2)[OF nlf True] cs by simp
      then show ?thesis using True cs by simp
    next
      case False
      obtain p ps where p: "split_char LF cs = p # ps"
        using split_char_nonempty[of LF cs] by (cases "split_char LF cs") auto
      obtain l ls where l: "splitLines cs = l # ls"
        using splitLines_nonempty[of cs] by (cases "splitLines cs") auto
      have "list_all2 (\<lambda>a b. a = b \<or> a = b @ [CR]) (p # ps) (l # ls)"
        using 2(3)[OF nlf False] p l by simp
      then show ?thesis using nlf False p l by auto
    qed
  qed
qed

lemma commentRegex_test_CR: "commentRegex_test (b @ [CR]) = commentRegex_test b"
proof (cases "\<forall>x\<in>set b. isSpace x")
  case True
  then have "dropWhile isSpace b = []" by simp
  moreover have "isSpace CR" by (simp add: isSpace_def)
  ultimately show ?thesis using True
    by (simp add: commentRegex_test_def dropWhile_append startsWith_single)
next
  case False
  then have ne: "dropWhile isSpace b \<noteq> []" by simp
  have "dropWhile isSpace (b @ [CR]) = dropWhile isSpace b @ [CR]"
    using False by (auto simp: dropWhile_append)
  then show ?thesis using ne
    by (simp add: commentRegex_test_def startsWith_single)
qed

lemma comment_line_agree:
  assumes "i < length (splitLines s)"
  shows "commentRegex_test (split_char LF s ! i) = commentRegex_test (splitLines s ! i)"
proof -
  have "split_char LF s ! i = splitLines s ! i \<or> split_char LF s ! i = splitLines s ! i @ [CR]"
    using lines_rel[of s] assms by (auto simp: list_all2_conv_all_nth)
  then show ?thesis by (auto simp: commentRegex_test_CR)
qed

lemma length_lines_agree: "length (splitLines s) = length (split_char LF s)"
  using lines_rel[of s] by (simp add: list_all2_lengthD)

lemma length_split_char: "length (split_char c s) = Suc (length (filter (\<lambda>x. x = c) s))"
  by (induction s) (auto split: list.splits simp: split_char_nonempty)

lemma split_char_append_sep: "split_char c (A @ c # zs) = split_char c A @ split_char c zs"
proof (induction A)
  case Nil
  then show ?case by simp
next
  case (Cons a A)
  obtain p ps where p: "split_char c A = p # ps"
    using split_char_nonempty[of c A] by (cases "split_char c A") auto
  show ?case using Cons p by simp
qed

lemma split_char_first: "c \<notin> set L \<Longrightarrow> split_char c (L @ ys) ! 0 = L @ takeWhile (\<lambda>x. x \<noteq> c) ys"
proof (induction L)
  case Nil
  show ?case
  proof (induction ys)
    case Nil
    then show ?case by simp
  next
    case (Cons y ys)
    obtain p ps where p: "split_char c ys = p # ps"
      using split_char_nonempty[of c ys] by (cases "split_char c ys") auto
    then show ?case using Cons by simp
  qed
next
  case (Cons a L)
  obtain p ps where p: "split_char c (L @ ys) = p # ps"
    using split_char_nonempty[of c "L @ ys"] by (cases "split_char c (L @ ys)") auto
  then show ?case using Cons by auto
qed

lemma lastSeg_no_LF: "LF \<notin> set (lastSeg s)"
  using set_takeWhileD[of LF "\<lambda>c. c \<noteq> LF" "rev s"] by (auto simp: lastSeg_def)

lemma lastSeg_id: "LF \<notin> set s \<Longrightarrow> lastSeg s = s"
proof -
  assume "LF \<notin> set s"
  then have "takeWhile (\<lambda>c. c \<noteq> LF) (rev s) = rev s" by (auto simp: takeWhile_eq_all_conv)
  then show ?thesis by (simp only: lastSeg_def rev_rev_ident)
qed

lemma lastSeg_decomp:
  "(LF \<notin> set s \<and> s = lastSeg s) \<or> (\<exists>A. s = A @ LF # lastSeg s)"
proof (cases "LF \<in> set s")
  case False
  then have "takeWhile (\<lambda>c. c \<noteq> LF) (rev s) = rev s" by (auto simp: takeWhile_eq_all_conv)
  then have "lastSeg s = s" by (simp only: lastSeg_def rev_rev_ident)
  then show ?thesis using False by simp
next
  case True
  define t where "t = takeWhile (\<lambda>c. c \<noteq> LF) (rev s)"
  define d where "d = dropWhile (\<lambda>c. c \<noteq> LF) (rev s)"
  have ne: "d \<noteq> []" using True by (simp add: d_def dropWhile_eq_Nil_conv)
  have "\<not> (hd d \<noteq> LF)" unfolding d_def by (rule hd_dropWhile) (use ne in \<open>simp add: d_def\<close>)
  then obtain B where B: "d = LF # B" using ne by (cases d) auto
  have "rev s = t @ d" unfolding t_def d_def by (rule takeWhile_dropWhile_id[symmetric])
  then have "rev (rev s) = rev (t @ LF # B)" by (simp only: B)
  then have "s = rev B @ LF # rev t" by simp
  moreover have "lastSeg s = rev t" by (simp only: lastSeg_def t_def)
  ultimately show ?thesis by auto
qed

lemma line_of_offset:
  "split_char LF (pre @ post) ! length (filter (\<lambda>c. c = LF) pre) = lastSeg pre @ takeWhile (\<lambda>c. c \<noteq> LF) post"
proof -
  consider (a) "LF \<notin> set pre" "pre = lastSeg pre" | (b) A where "pre = A @ LF # lastSeg pre"
    using lastSeg_decomp[of pre] by blast
  then show ?thesis
  proof cases
    case a
    then have "filter (\<lambda>c. c = LF) pre = []" by (auto simp: filter_empty_conv)
    then show ?thesis using split_char_first[OF a(1), of post] a(2) by simp
  next
    case b
    let ?L = "lastSeg pre"
    have n: "filter (\<lambda>c. c = LF) ?L = []" using lastSeg_no_LF[of pre] by (auto simp: filter_empty_conv)
    have cnt: "length (filter (\<lambda>c. c = LF) pre) = length (split_char LF A)"
      by (subst b) (simp add: length_split_char n)
    have "split_char LF (pre @ post) = split_char LF A @ split_char LF (?L @ post)"
      by (subst b) (simp add: split_char_append_sep)
    then have "split_char LF (pre @ post) ! length (filter (\<lambda>c. c = LF) pre) = split_char LF (?L @ post) ! 0"
      by (simp add: cnt nth_append)
    then show ?thesis using split_char_first[OF lastSeg_no_LF, of pre post] by simp
  qed
qed

lemma tokenMatches_offsets:
  "(off, w) \<in> set (tokenMatches k s) \<Longrightarrow> k \<le> off \<and> off - k < length s \<and> isIdentStart (s ! (off - k))"
proof (induction k s rule: tokenMatches.induct)
  case (1 k)
  then show ?case by simp
next
  case (2 k c cs)
  show ?case
  proof (cases "isIdentStart c")
    case False
    then have "(off, w) \<in> set (tokenMatches (k + 1) cs)" using 2(3) by simp
    from 2(2)[OF False this]
    have a: "k + 1 \<le> off" and b: "off - (k + 1) < length cs"
      and c: "isIdentStart (cs ! (off - (k + 1)))" by auto
    have idx: "off - k = Suc (off - (k + 1))" using a by simp
    have "(c # cs) ! (off - k) = cs ! (off - (k + 1))" unfolding idx by simp
    then show ?thesis using a b c idx by simp
  next
    case True
    define word where "word = c # takeWhile isIdentChar cs"
    have "(off, w) = (k, word) \<or> (off, w) \<in> set (tokenMatches (k + length word) (dropWhile isIdentChar cs))"
      using 2(3) True by (simp add: word_def Let_def)
    then show ?thesis
    proof
      assume "(off, w) = (k, word)"
      then show ?thesis using True by simp
    next
      assume m: "(off, w) \<in> set (tokenMatches (k + length word) (dropWhile isIdentChar cs))"
      from 2(1)[OF True word_def m]
      have a: "k + length word \<le> off" and b: "off - (k + length word) < length (dropWhile isIdentChar cs)"
        and c: "isIdentStart (dropWhile isIdentChar cs ! (off - (k + length word)))" by auto
      have lw: "length word = Suc (length (takeWhile isIdentChar cs))" by (simp add: word_def)
      have len: "length cs = length (takeWhile isIdentChar cs) + length (dropWhile isIdentChar cs)"
        by (metis length_append takeWhile_dropWhile_id)
      have idx: "off - k = Suc (length (takeWhile isIdentChar cs) + (off - (k + length word)))"
        using a lw by simp
      have "(c # cs) ! (off - k) = cs ! (length (takeWhile isIdentChar cs) + (off - (k + length word)))"
        unfolding idx by simp
      also have "\<dots> = (takeWhile isIdentChar cs @ dropWhile isIdentChar cs) ! (length (takeWhile isIdentChar cs) + (off - (k + length word)))"
        by simp
      also have "\<dots> = dropWhile isIdentChar cs ! (off - (k + length word))"
        by (simp only: nth_append_length_plus)
      finally have "isIdentStart ((c # cs) ! (off - k))" using c by simp
      moreover have "k \<le> off" using a by simp
      moreover have "off - k < length (c # cs)" using idx b len by simp
      ultimately show ?thesis by simp
    qed
  qed
qed

lemma isIdentStart_not_LF: "isIdentStart c \<Longrightarrow> c \<noteq> LF"
  by (auto simp: isIdentStart_def)

lemma take_lastSeg: "take (length s - length (lastSeg s)) s @ lastSeg s = s"
proof -
  consider (a) "s = lastSeg s" | (b) A where "s = A @ LF # lastSeg s"
    using lastSeg_decomp[of s] by blast
  then show ?thesis
  proof cases
    case a
    then have "length s - length (lastSeg s) = 0" by simp
    then show ?thesis using a by simp
  next
    case b
    have "length s = length (A @ [LF]) + length (lastSeg s)" by (subst b) simp
    then have l: "length s - length (lastSeg s) = length (A @ [LF])" by simp
    have "take (length (A @ [LF])) s = A @ [LF]" by (subst b) simp
    then show ?thesis unfolding l using b by simp
  qed
qed

lemma lineStart_eq:
  assumes "off < length txt" and "txt ! off \<noteq> LF"
  shows "lastIndexOf txt LF (int off - 1) + 1 = int (off - length (lastSeg (take off txt)))"
proof (cases "off")
  case 0
  have "take 1 txt = [txt ! 0]" using assms(1) 0 by (cases "txt") auto
  then show ?thesis using assms(2) 0 by (simp add: lastIndexOf_def lastSeg_def)
next
  case (Suc n)
  have p: "take (nat (max (int off - 1) 0) + 1) txt = take off txt" using Suc by simp
  have l: "length (take off txt) = off" using assms(1) by simp
  show ?thesis
  proof (cases "LF \<in> set (take off txt)")
    case True
    have le: "length (lastSeg (take off txt)) < off"
    proof -
      from True lastSeg_decomp[of "take off txt"] obtain A where "take off txt = A @ LF # lastSeg (take off txt)"
        by blast
      then have "length (take off txt) = length A + 1 + length (lastSeg (take off txt))"
        by (metis length_append length_Cons add_Suc_right Suc_eq_plus1 add.assoc add_Suc_shift)
      then show ?thesis using l by simp
    qed
    have "lastIndexOf txt LF (int off - 1) = int off - 1 - int (length (lastSeg (take off txt)))"
      unfolding lastIndexOf_def Let_def p using True assms(1) by (simp add: lastSeg_def)
    then show ?thesis using le by simp
  next
    case False
    then have "lastSeg (take off txt) = take off txt"
      by (rule lastSeg_id)
    then have "length (lastSeg (take off txt)) = off" using l by simp
    moreover have "lastIndexOf txt LF (int off - 1) = - 1"
      unfolding lastIndexOf_def Let_def p using False by simp
    ultimately show ?thesis by simp
  qed
qed

lemma drop_lineStart:
  assumes "off \<le> length txt"
  shows "drop (off - length (lastSeg (take off txt))) txt = lastSeg (take off txt) @ drop off txt"
proof -
  let ?pre = "take off txt"
  let ?s0 = "off - length (lastSeg ?pre)"
  have l: "length ?pre = off" using assms by simp
  have "take ?s0 ?pre @ lastSeg ?pre = ?pre" using take_lastSeg[of ?pre] l by simp
  then have "txt = take ?s0 ?pre @ lastSeg ?pre @ drop off txt"
    by (metis append_take_drop_id append.assoc)
  moreover have "length (take ?s0 ?pre) = ?s0" using l by simp
  ultimately show ?thesis by (metis append_eq_conv_conj)
qed

lemma line_extract:
  assumes "drop s0 txt = m # M" and "m \<noteq> LF"
  shows "substring txt (int s0)
           (if indexOf txt LF (int s0 + 1) = - 1 then int (length txt) else indexOf txt LF (int s0 + 1))
         = takeWhile (\<lambda>c. c \<noteq> LF) (m # M)"
proof -
  have s0: "s0 < length txt" using assms(1) by (cases "s0 < length txt") auto
  have k: "min (nat (max (int s0 + 1) 0)) (length txt) = s0 + 1"
    using s0 by simp
  have d: "drop (s0 + 1) txt = M"
    using assms(1) by (metis Suc_eq_plus1 drop_Suc drop_tl list.sel(3) tl_drop)
  show ?thesis
  proof (cases "LF \<in> set M")
    case True
    have i: "indexOf txt LF (int s0 + 1) = int (s0 + 1) + int (length (takeWhile (\<lambda>x. x \<noteq> LF) M))"
      unfolding indexOf_def Let_def k d using True by simp
    then have ne: "indexOf txt LF (int s0 + 1) \<noteq> - 1" by simp
    have le: "s0 + 1 + length (takeWhile (\<lambda>x. x \<noteq> LF) M) \<le> length txt"
    proof -
      have "length txt = s0 + length (m # M)" using assms(1) s0
        by (metis add_diff_cancel_left' le_add_diff_inverse length_drop less_imp_le_nat)
      moreover have "length (takeWhile (\<lambda>x. x \<noteq> LF) M) \<le> length M" by (rule length_takeWhile_le)
      ultimately show ?thesis by simp
    qed
    have "substring txt (int s0) (int (s0 + 1) + int (length (takeWhile (\<lambda>x. x \<noteq> LF) M)))
          = take (1 + length (takeWhile (\<lambda>x. x \<noteq> LF) M)) (drop s0 txt)"
      using s0 le by (simp add: substring_def Let_def nat_add_distrib min_def max_def)
    also have "\<dots> = m # takeWhile (\<lambda>x. x \<noteq> LF) M"
      unfolding assms(1) by (simp add: takeWhile_eq_take[symmetric])
    finally show ?thesis using ne i assms(2) by simp
  next
    case False
    have i: "indexOf txt LF (int s0 + 1) = - 1"
      unfolding indexOf_def Let_def k d using False by simp
    have "substring txt (int s0) (int (length txt)) = drop s0 txt"
      using s0 by (auto simp: substring_def Let_def min_def max_def)
    moreover have "takeWhile (\<lambda>c. c \<noteq> LF) (m # M) = m # M"
      using False assms(2) by (auto simp: takeWhile_eq_all_conv)
    ultimately show ?thesis using i assms(1) by simp
  qed
qed

lemma isInComment_line:
  assumes "off < length txt" and "txt ! off \<noteq> LF"
  shows "isInComment txt off = commentRegex_test (split_char LF txt ! fst (positionAt txt off))"
proof -
  let ?L = "lastSeg (take off txt)"
  let ?s0 = "off - length ?L"
  have dr: "drop ?s0 txt = ?L @ drop off txt" using drop_lineStart[of "off" "txt"] assms(1) by simp
  have post: "drop off txt = txt ! off # drop (Suc off) txt"
    using assms(1) by (simp add: Cons_nth_drop_Suc)
  obtain m M where mM: "?L @ drop off txt = m # M" and m: "m \<noteq> LF"
  proof (cases ?L)
    case Nil
    then show ?thesis using that[of "txt ! off" "drop (Suc off) txt"] post assms(2) by simp
  next
    case (Cons a as)
    then have "a \<noteq> LF" using lastSeg_no_LF[of "take off txt"] by auto
    then show ?thesis using that[of a "as @ drop off txt"] Cons by simp
  qed
  have ls: "lastIndexOf txt LF (int off - 1) + 1 = int ?s0" by (rule lineStart_eq[OF assms])
  have ex: "substring txt (int ?s0)
           (if indexOf txt LF (int ?s0 + 1) = - 1 then int (length txt) else indexOf txt LF (int ?s0 + 1))
         = takeWhile (\<lambda>c. c \<noteq> LF) (?L @ drop off txt)"
    using line_extract[of ?s0 "txt" m M] dr mM m by simp
  have tw: "takeWhile (\<lambda>c. c \<noteq> LF) (?L @ drop off txt) = ?L @ takeWhile (\<lambda>c. c \<noteq> LF) (drop off txt)"
    using lastSeg_no_LF[of "take off txt"] by (auto simp: takeWhile_append)
  have "isInComment txt off = commentRegex_test (?L @ takeWhile (\<lambda>c. c \<noteq> LF) (drop off txt))"
    unfolding isInComment_def Let_def ls ex tw ..
  moreover have "split_char LF txt ! fst (positionAt txt off) = ?L @ takeWhile (\<lambda>c. c \<noteq> LF) (drop off txt)"
    using line_of_offset[of "take off txt" "drop off txt"] by (simp add: positionAt_def Let_def)
  ultimately show ?thesis by simp
qed

lemma line_lt_length:
  "fst (positionAt txt off) < length (splitLines txt)"
proof -
  have "length (filter (\<lambda>c. c = LF) (take off txt)) \<le> length (filter (\<lambda>c. c = LF) (take off txt @ drop off txt))"
    unfolding filter_append length_append by simp
  then show ?thesis
    by (simp add: positionAt_def Let_def length_lines_agree length_split_char)
qed

lemma token_comment_iff:
  assumes "(off, w) \<in> set (tokenMatches 0 txt)"
  shows "isInComment txt off = onCommentLine txt off"
proof -
  from tokenMatches_offsets[OF assms] have o: "off < length txt" and i: "isIdentStart (txt ! off)" by auto
  have "isInComment txt off = commentRegex_test (split_char LF txt ! fst (positionAt txt off))"
    by (rule isInComment_line[OF o isIdentStart_not_LF[OF i]])
  also have "\<dots> = commentRegex_test (splitLines txt ! fst (positionAt txt off))"
    by (rule comment_line_agree[OF line_lt_length])
  finally show ?thesis by (simp add: onCommentLine_def commentRegex_test_trim)
qed

section \<open>Splitting and tokens\<close>

text \<open>
  The pieces of \<open>split_char\<close> contain no separator and give the string back when joined
  with it; a token is a longest run of identifier characters.
\<close>

lemma split_char_join: "join [c] (split_char c s) = s"
proof (induction s)
  case Nil
  then show ?case by simp
next
  case (Cons a s)
  obtain p ps where p: "split_char c s = p # ps"
    using split_char_nonempty[of c s] by (cases "split_char c s") auto
  show ?case
  proof (cases "a = c")
    case True
    then show ?thesis using Cons p by simp
  next
    case False
    then show ?thesis using Cons p by (cases ps) simp_all
  qed
qed

lemma split_char_pieces: "p \<in> set (split_char c s) \<Longrightarrow> c \<notin> set p"
proof (induction s arbitrary: p)
  case Nil
  then show ?case by simp
next
  case (Cons a s)
  obtain q qs where q: "split_char c s = q # qs"
    using split_char_nonempty[of c s] by (cases "split_char c s") auto
  show ?case
  proof (cases "a = c")
    case True
    then show ?thesis using Cons by auto
  next
    case False
    then have "p = a # q \<or> p \<in> set qs" using Cons.prems q by simp
    then show ?thesis using Cons.IH[of q] Cons.IH[of p] q False by auto
  qed
qed

lemma isIdentStart_isIdentChar: "isIdentStart c \<Longrightarrow> isIdentChar c"
  by (auto simp: isIdentStart_def isIdentChar_def Let_def)

lemma tokenMatches_words:
  "(off, w) \<in> set (tokenMatches k s) \<Longrightarrow> w = takeWhile isIdentChar (drop (off - k) s) \<and> w \<noteq> []"
proof (induction k s rule: tokenMatches.induct)
  case (1 k)
  then show ?case by simp
next
  case (2 k c cs)
  show ?case
  proof (cases "isIdentStart c")
    case False
    then have m: "(off, w) \<in> set (tokenMatches (k + 1) cs)" using 2(3) by simp
    from tokenMatches_offsets[OF m] have "k + 1 \<le> off" by simp
    then have idx: "off - k = Suc (off - (k + 1))" by simp
    from 2(2)[OF False m] show ?thesis unfolding idx by auto
  next
    case True
    define word where "word = c # takeWhile isIdentChar cs"
    have "(off, w) = (k, word) \<or> (off, w) \<in> set (tokenMatches (k + length word) (dropWhile isIdentChar cs))"
      using 2(3) True by (simp add: word_def Let_def)
    then show ?thesis
    proof
      assume "(off, w) = (k, word)"
      then show ?thesis using isIdentStart_isIdentChar[OF True] by (simp add: word_def)
    next
      assume m: "(off, w) \<in> set (tokenMatches (k + length word) (dropWhile isIdentChar cs))"
      from tokenMatches_offsets[OF m] have a: "k + length word \<le> off" by simp
      have lw: "length word = Suc (length (takeWhile isIdentChar cs))" by (simp add: word_def)
      have idx: "off - k = Suc (length (takeWhile isIdentChar cs) + (off - (k + length word)))"
        using a lw by simp
      have "drop (off - k) (c # cs) = drop (length (takeWhile isIdentChar cs) + (off - (k + length word))) cs"
        unfolding idx by simp
      also have "\<dots> = drop (off - (k + length word)) (drop (length (takeWhile isIdentChar cs)) cs)"
        by (simp add: add.commute)
      also have "drop (length (takeWhile isIdentChar cs)) cs = dropWhile isIdentChar cs"
        by (simp add: dropWhile_eq_drop)
      finally show ?thesis using 2(1)[OF True word_def m] by auto
    qed
  qed
qed

section \<open>Classification rules\<close>

lemma fold_insert_image: "fold (\<lambda>arg acc. insert (g arg) acc) xs A = g ` set xs \<union> A"
  by (induction xs arbitrary: A) auto

lemma allParams_fold:
  "fold (\<lambda>f acc. fold (\<lambda>arg acc. insert arg acc) (filterArgs f)
                  (fold (\<lambda>arg acc. insert (stripSigil arg) acc) (valueArgs f) acc)) fs A
   = A \<union> (\<Union>f\<in>set fs. set (paramNames f))"
proof (induction fs arbitrary: A)
  case Nil
  then show ?case by simp
next
  case (Cons f fs)
  have "fold (\<lambda>arg acc. insert arg acc) (filterArgs f)
          (fold (\<lambda>arg acc. insert (stripSigil arg) acc) (valueArgs f) A) = A \<union> set (paramNames f)"
    using fold_insert_image[of stripSigil "valueArgs f" A]
          fold_insert_image[of "\<lambda>a. a" "filterArgs f" "stripSigil ` set (valueArgs f) \<union> A"]
    by (auto simp: paramNames_def)
  then show ?case using Cons.IH by (simp add: Un_assoc)
qed

lemma allParams_closed: "allParams fs = (\<Union>f\<in>set fs. set (paramNames f))"
  using allParams_fold[of fs "{}"] by (simp add: allParams_def)

lemma provideDocumentSemanticTokens_closed:
  "provideDocumentSemanticTokens builtins txt =
     Inr (map (pushToken txt)
            (classifyTokens builtins txt (map (recordAt (splitLines txt)) (headerLines (splitLines txt)))))"
  by (simp add: provideDocumentSemanticTokens_def parse_closed)

lemma tokenType_function:
  "tokenType FunctionUser = ''function'' \<and> tokenType FunctionBuiltin = ''function'' \<and>
   tokenType Parameter = ''parameter''"
  by (simp add: tokenType_def)

lemma classifyWord_builtin:
  "classifyWord builtins fs line w = Some FunctionBuiltin \<Longrightarrow> w \<notin> allParams fs"
  by (auto simp: classifyWord_def Let_def split: if_splits)

text \<open>
  Claim C3. If a record of the list the tokens are classified with (in particular a record
  that \<^verbatim>\<open>parse\<close> returned) has a parameter named \<open>x\<close>, value parameters taken without
  their \<^verbatim>\<open>$\<close> and filter parameters as they are, then no token \<open>x\<close> of the document, at
  any offset, is classified as a built-in function, whether or not \<open>x\<close> is a built-in name.
\<close>
theorem shadow_rule:
  assumes "f \<in> set fs" and "x \<in> set (paramNames f)"
  shows "(off, x, FunctionBuiltin) \<notin> set (classifyTokens builtins txt fs)"
proof
  assume "(off, x, FunctionBuiltin) \<in> set (classifyTokens builtins txt fs)"
  then have "classifyToken builtins txt fs (off, x) = Some FunctionBuiltin"
    by (simp add: classifyTokens_set)
  then have "classifyWord builtins fs (fst (positionAt txt off)) x = Some FunctionBuiltin"
    by (simp add: classifyToken_def split: if_splits)
  then have "x \<notin> allParams fs" by (rule classifyWord_builtin)
  then show False using assms by (auto simp: allParams_closed)
qed

theorem shadow_rule_witness:
  "parse shadow_text = Inr [shadow_f] \<and> shadow_f \<in> set [shadow_f] \<and>
   ''map'' \<in> set (paramNames shadow_f) \<and> ''map'' \<in> set [''map'', ''keys''] \<and>
   (16, ''map'') \<in> set (tokenMatches 0 shadow_text) \<and>
   (16, ''map'', FunctionBuiltin) \<notin> set (classifyTokens [''map'', ''keys''] shadow_text [shadow_f]) \<and>
   classifyTokens [''map'', ''keys''] shadow_text [shadow_f] =
     [(4, ''f'', FunctionUser), (6, ''map'', Parameter), (12, ''map'', Parameter)]"
proof -
  have p: "parse shadow_text = Inr [shadow_f]" by code_simp
  have h1: "shadow_f \<in> set [shadow_f]" by simp
  have h2: "''map'' \<in> set (paramNames shadow_f)" by code_simp
  have t: "(16, ''map'') \<in> set (tokenMatches 0 shadow_text)" by code_simp
  have c: "classifyTokens [''map'', ''keys''] shadow_text [shadow_f] =
     [(4, ''f'', FunctionUser), (6, ''map'', Parameter), (12, ''map'', Parameter)]" by code_simp
  from shadow_rule[OF h1 h2, of 16 "[''map'', ''keys'']" shadow_text]
  show ?thesis using p h2 t c by simp
qed

text \<open>
  Claim C6. A token on a line whose trimmed text starts with \<^verbatim>\<open>#\<close> gets no category at
  all: no entry for it is in the result of \<^verbatim>\<open>classifyTokens\<close>.
\<close>
theorem comment_exclusion:
  assumes "(off, w) \<in> set (tokenMatches 0 txt)" and "onCommentLine txt off"
  shows "(off, w, c) \<notin> set (classifyTokens builtins txt fs)"
proof -
  have "isInComment txt off" using token_comment_iff[OF assms(1)] assms(2) by simp
  then have "classifyToken builtins txt fs (off, w) = None" by (simp add: classifyToken_def)
  then show ?thesis by (simp add: classifyTokens_set)
qed

theorem comment_exclusion_witness:
  "(2, ''map'') \<in> set (tokenMatches 0 comment_text) \<and> onCommentLine comment_text 2 \<and>
   parse comment_text = Inr [] \<and>
   (2, ''map'', FunctionBuiltin) \<notin> set (classifyTokens [''keys'', ''map''] comment_text [])"
proof -
  have t: "(2, ''map'') \<in> set (tokenMatches 0 comment_text)" by code_simp
  have o: "onCommentLine comment_text 2" by code_simp
  have p: "parse comment_text = Inr []" by code_simp
  from comment_exclusion[OF t o, of FunctionBuiltin "[''keys'', ''map'']" "[]"]
  show ?thesis using t o p by simp
qed

text \<open>
  Claim C10. Only the first character after the leading white space of the line decides
  the comment test: a token on a line whose trimmed text does not start with \<^verbatim>\<open>#\<close> is
  classified by the priority rules of \<^verbatim>\<open>classifyWord\<close>, and it is in the result with
  a category exactly when those rules give that category. No assumption is made on
  the characters in front of the token, so a \<^verbatim>\<open>#\<close> earlier on the line changes nothing.
\<close>
theorem midline_hash_not_comment:
  assumes "(off, w) \<in> set (tokenMatches 0 txt)" and "\<not> onCommentLine txt off"
  shows "classifyToken builtins txt fs (off, w) = classifyWord builtins fs (fst (positionAt txt off)) w \<and>
         ((off, w, c) \<in> set (classifyTokens builtins txt fs) \<longleftrightarrow>
            classifyWord builtins fs (fst (positionAt txt off)) w = Some c)"
proof -
  have "\<not> isInComment txt off" using token_comment_iff[OF assms(1)] assms(2) by simp
  then have "classifyToken builtins txt fs (off, w) = classifyWord builtins fs (fst (positionAt txt off)) w"
    by (simp add: classifyToken_def)
  then show ?thesis using assms(1) by (simp add: classifyTokens_set)
qed

theorem midline_hash_not_comment_witness:
  "(13, ''map'') \<in> set (tokenMatches 0 comment_text) \<and> \<not> onCommentLine comment_text 13 \<and>
   positionAt comment_text 13 = (1, 7) \<and>
   CHR ''#'' \<in> set (take 7 (splitLines comment_text ! 1)) \<and>
   classifyWord [''keys'', ''map''] [] 1 ''map'' = Some FunctionBuiltin \<and>
   (13, ''map'', FunctionBuiltin) \<in> set (classifyTokens [''keys'', ''map''] comment_text [])"
proof -
  have t: "(13, ''map'') \<in> set (tokenMatches 0 comment_text)" by code_simp
  have o: "\<not> onCommentLine comment_text 13" by code_simp
  have pos: "positionAt comment_text 13 = (1, 7)" by code_simp
  have h: "CHR ''#'' \<in> set (take 7 (splitLines comment_text ! 1))" by code_simp
  have w: "classifyWord [''keys'', ''map''] [] 1 ''map'' = Some FunctionBuiltin" by code_simp
  from midline_hash_not_comment[OF t o, of "[''keys'', ''map'']" "[]" FunctionBuiltin]
  show ?thesis using t o pos h w by simp
qed

text \<open>
  Claim C4, as stated, fails for a definition nested in another one: the line of the
  token lies in the range of \<^verbatim>\<open>inner\<close> and the token is the parameter \<^verbatim>\<open>map\<close> of \<^verbatim>\<open>inner\<close>
  and a built-in name, but \<^verbatim>\<open>getContextFunction\<close> returns \<^verbatim>\<open>outer\<close>, the first record whose
  range contains the line, and the token is not classified as a parameter.
\<close>
theorem parameter_in_nested_definition_counterexample:
  "parse nested_text = Inr [nested_outer, nested_inner] \<and>
   (33, ''map'') \<in> set (tokenMatches 0 nested_text) \<and>
   \<not> onCommentLine nested_text 33 \<and>
   fst (positionAt nested_text 33) = 2 \<and>
   startLine nested_inner \<le> 2 \<and> 2 \<le> endLine nested_inner \<and>
   ''map'' \<in> set (paramNames nested_inner) \<and>
   ''map'' \<in> set [''map''] \<and>
   (33, ''map'', Parameter) \<notin> set (classifyTokens [''map''] nested_text [nested_outer, nested_inner])"
proof -
  have "parse nested_text = Inr [nested_outer, nested_inner]" by code_simp
  moreover have "(33, ''map'') \<in> set (tokenMatches 0 nested_text)" by code_simp
  moreover have "\<not> onCommentLine nested_text 33" by code_simp
  moreover have "fst (positionAt nested_text 33) = 2" by code_simp
  moreover have "startLine nested_inner \<le> 2 \<and> 2 \<le> endLine nested_inner" by code_simp
  moreover have "''map'' \<in> set (paramNames nested_inner)" by code_simp
  moreover have "(33, ''map'', Parameter) \<notin> set (classifyTokens [''map''] nested_text [nested_outer, nested_inner])"
    by code_simp
  ultimately show ?thesis by simp
qed

text \<open>
  Claim C4, amended. A token that is not on a comment line and whose text is a parameter
  name (value parameters without their \<^verbatim>\<open>$\<close>, filter parameters as they are) of the first
  record, in list order, whose range contains the line of the token is classified as a
  parameter, whether or not its text is a built-in name.
\<close>
theorem parameter_priority:
  assumes "(off, w) \<in> set (tokenMatches 0 txt)" and "\<not> onCommentLine txt off"
    and "line = fst (positionAt txt off)"
    and "k < length fs"
    and "startLine (fs ! k) \<le> line" and "line \<le> endLine (fs ! k)"
    and "\<forall>j<k. \<not> (startLine (fs ! j) \<le> line \<and> line \<le> endLine (fs ! j))"
    and "w \<in> set (paramNames (fs ! k))"
  shows "(off, w, Parameter) \<in> set (classifyTokens builtins txt fs)"
proof -
  have nc: "\<not> isInComment txt off" using token_comment_iff[OF assms(1)] assms(2) by simp
  have ctx: "getContextFunction fs line = Some (fs ! k)"
    unfolding getContextFunction_def find_Some_iff using assms(4-7) by auto
  have "list_ex (\<lambda>arg. stripSigil arg = w) (valueArgs (fs ! k)) \<or> list_ex (\<lambda>arg. arg = w) (filterArgs (fs ! k))"
    using assms(8) by (auto simp: paramNames_def list_ex_iff)
  then have "classifyWord builtins fs line w = Some Parameter"
    by (simp add: classifyWord_def ctx Let_def)
  then have "classifyToken builtins txt fs (off, w) = Some Parameter"
    using nc assms(3) by (simp add: classifyToken_def)
  then show ?thesis using assms(1) by (simp add: classifyTokens_set)
qed

theorem parameter_priority_witness:
  "(12, ''map'') \<in> set (tokenMatches 0 shadow_text) \<and> \<not> onCommentLine shadow_text 12 \<and>
   fst (positionAt shadow_text 12) = 0 \<and> parse shadow_text = Inr [shadow_f] \<and>
   (0::nat) < length [shadow_f] \<and> startLine ([shadow_f] ! 0) \<le> 0 \<and> 0 \<le> endLine ([shadow_f] ! 0) \<and>
   ''map'' \<in> set (paramNames ([shadow_f] ! 0)) \<and> ''map'' \<in> set [''map'', ''keys''] \<and>
   (12, ''map'', Parameter) \<in> set (classifyTokens [''map'', ''keys''] shadow_text [shadow_f])"
proof -
  have t: "(12, ''map'') \<in> set (tokenMatches 0 shadow_text)" by code_simp
  have o: "\<not> onCommentLine shadow_text 12" by code_simp
  have l: "0 = fst (positionAt shadow_text 12)" by code_simp
  have p: "parse shadow_text = Inr [shadow_f]" by code_simp
  have k: "(0::nat) < length [shadow_f]" by simp
  have s: "startLine ([shadow_f] ! 0) \<le> 0" by code_simp
  have e: "0 \<le> endLine ([shadow_f] ! 0)" by simp
  have n: "\<forall>j<0::nat. \<not> (startLine ([shadow_f] ! j) \<le> 0 \<and> 0 \<le> endLine ([shadow_f] ! j))" by simp
  have m: "''map'' \<in> set (paramNames ([shadow_f] ! 0))" by code_simp
  from parameter_priority[OF t o l k s e n m, of "[''map'', ''keys'']"]
  show ?thesis using t o l[symmetric] p s m by simp
qed

section \<open>The header pattern\<close>

text \<open>
  What \<open>defRegex_exec\<close> accepts, read off the pattern: leading white space, \<^verbatim>\<open>def\<close>, white
  space, an identifier, optionally a parenthesis around a text without \<^verbatim>\<open>)\<close>, white space
  and a colon. A line is matched exactly when it starts in this way, and the groups are
  the leading white space, the identifier and the text in the parenthesis.
\<close>

lemma startsWith_append: "startsWith s p \<Longrightarrow> s = p @ drop (length p) s"
  by (metis append_take_drop_id startsWith_def)

lemma defRegex_exec_sound:
  assumes "defRegex_exec l = Some (g1, g2, g3)"
  shows "\<exists>ws1 ws2 rest.
           l = g1 @ ''def'' @ ws1 @ g2 @ (case g3 of None \<Rightarrow> [] | Some raw \<Rightarrow> ''('' @ raw @ '')'')
                 @ ws2 @ '':'' @ rest \<and>
           (\<forall>c\<in>set g1. isSpace c) \<and> ws1 \<noteq> [] \<and> (\<forall>c\<in>set ws1. isSpace c) \<and>
           g2 \<noteq> [] \<and> isIdentStart (hd g2) \<and> (\<forall>c\<in>set g2. isIdentChar c) \<and>
           (\<forall>c\<in>set ws2. isSpace c) \<and>
           (case g3 of None \<Rightarrow> True | Some raw \<Rightarrow> CHR '')'' \<notin> set raw)"
proof -
  define r1 where "r1 = dropWhile isSpace l"
  define r2 where "r2 = drop 3 r1"
  define ws1 where "ws1 = takeWhile isSpace r2"
  define r3 where "r3 = dropWhile isSpace r2"
  define r4 where "r4 = dropWhile isIdentChar r3"
  define grp where "grp = (startsWith r4 ''('' \<and> CHR '')'' \<in> set (drop 1 r4))"
  define r5 where "r5 = (if grp then drop 1 (dropWhile (\<lambda>c. c \<noteq> CHR '')'') (drop 1 r4)) else r4)"
  define ws2 where "ws2 = takeWhile isSpace r5"
  from assms have
    g1: "g1 = takeWhile isSpace l" and
    d: "startsWith r1 ''def''" and
    w: "ws1 \<noteq> []" and
    i: "r3 \<noteq> []" "isIdentStart (hd r3)" and
    g2: "g2 = takeWhile isIdentChar r3" and
    g3: "g3 = (if grp then Some (takeWhile (\<lambda>c. c \<noteq> CHR '')'') (drop 1 r4)) else None)" and
    c: "startsWith (dropWhile isSpace r5) '':''"
    unfolding defRegex_exec_def Let_def r1_def r2_def ws1_def r3_def r4_def grp_def r5_def
    by (auto split: if_splits)
  have l: "l = g1 @ r1" by (simp add: g1 r1_def)
  have r1: "r1 = ''def'' @ r2" using startsWith_append[OF d] by (simp add: r2_def numeral_3_eq_3)
  have r2: "r2 = ws1 @ r3" by (simp add: ws1_def r3_def)
  have r3: "r3 = g2 @ r4" by (simp add: g2 r4_def)
  have r5: "r5 = ws2 @ '':'' @ drop 1 (dropWhile isSpace r5)"
    using startsWith_append[OF c] takeWhile_dropWhile_id[of isSpace r5] by (simp add: ws2_def)
  have r4: "r4 = (case g3 of None \<Rightarrow> [] | Some raw \<Rightarrow> ''('' @ raw @ '')'') @ r5"
  proof (cases grp)
    case False
    then show ?thesis by (simp add: g3 r5_def)
  next
    case True
    define t where "t = drop 1 r4"
    have a: "r4 = ''('' @ t" using True startsWith_append[of r4 "''(''"] by (simp add: grp_def t_def)
    have "CHR '')'' \<in> set t" using True by (simp add: grp_def t_def)
    then have "dropWhile (\<lambda>c. c \<noteq> CHR '')'') t \<noteq> []" by (simp add: dropWhile_eq_Nil_conv)
    moreover have "\<not> (hd (dropWhile (\<lambda>c. c \<noteq> CHR '')'') t) \<noteq> CHR '')'')"
      by (rule hd_dropWhile) (use calculation in simp)
    ultimately obtain B where B: "dropWhile (\<lambda>c. c \<noteq> CHR '')'') t = CHR '')'' # B"
      by (cases "dropWhile (\<lambda>c. c \<noteq> CHR '')'') t") auto
    have "t = takeWhile (\<lambda>c. c \<noteq> CHR '')'') t @ CHR '')'' # B"
      using takeWhile_dropWhile_id[of "\<lambda>c. c \<noteq> CHR '')''" t] by (simp only: B)
    moreover have "r5 = B" using True B by (simp add: r5_def t_def)
    moreover have "g3 = Some (takeWhile (\<lambda>c. c \<noteq> CHR '')'') t)" using True by (simp add: g3 t_def)
    ultimately show ?thesis using a by simp
  qed
  have full: "l = g1 @ ''def'' @ ws1 @ g2 @ (case g3 of None \<Rightarrow> [] | Some raw \<Rightarrow> ''('' @ raw @ '')'')
                 @ ws2 @ '':'' @ drop 1 (dropWhile isSpace r5)"
    using l r1 r2 r3 r4 r5 by (metis append.assoc)
  have p1: "\<forall>c\<in>set g1. isSpace c" unfolding g1 by (auto dest: set_takeWhileD)
  have p2: "\<forall>c\<in>set ws1. isSpace c" unfolding ws1_def by (auto dest: set_takeWhileD)
  have p3: "g2 \<noteq> []" "isIdentStart (hd g2)"
    using i unfolding g2 by (cases r3; auto simp: isIdentStart_def isIdentChar_def Let_def)+
  have p4: "\<forall>c\<in>set g2. isIdentChar c" unfolding g2 by (auto dest: set_takeWhileD)
  have p5: "\<forall>c\<in>set ws2. isSpace c" unfolding ws2_def by (auto dest: set_takeWhileD)
  have p6: "case g3 of None \<Rightarrow> True | Some raw \<Rightarrow> CHR '')'' \<notin> set raw"
    unfolding g3 by (auto dest: set_takeWhileD)
  show ?thesis using full w p1 p2 p3 p4 p5 p6 by blast
qed

lemma takeWhile_stop:
  "(\<forall>x\<in>set xs. P x) \<Longrightarrow> \<not> P y \<Longrightarrow> takeWhile P (xs @ y # ys) = xs"
  by (simp add: takeWhile_append2)

lemma dropWhile_stop:
  "(\<forall>x\<in>set xs. P x) \<Longrightarrow> \<not> P y \<Longrightarrow> dropWhile P (xs @ y # ys) = y # ys"
  by (simp add: dropWhile_append2)

lemma isSpace_not_ident: "isSpace c \<Longrightarrow> \<not> isIdentChar c"
  by (auto simp: isSpace_def isIdentChar_def Let_def)

lemma isIdentStart_not_space: "isIdentStart c \<Longrightarrow> \<not> isSpace c"
  by (auto simp: isSpace_def isIdentStart_def Let_def)

lemma defRegex_exec_complete:
  assumes "\<forall>c\<in>set ws. isSpace c" and "ws1 \<noteq> []" and "\<forall>c\<in>set ws1. isSpace c"
    and "nm \<noteq> []" and "isIdentStart (hd nm)" and "\<forall>c\<in>set nm. isIdentChar c"
    and "\<forall>c\<in>set ws2. isSpace c"
    and "case g3 of None \<Rightarrow> True | Some raw \<Rightarrow> CHR '')'' \<notin> set raw"
  shows "defRegex_exec (ws @ ''def'' @ ws1 @ nm @ (case g3 of None \<Rightarrow> [] | Some raw \<Rightarrow> ''('' @ raw @ '')'')
                          @ ws2 @ '':'' @ rest) = Some (ws, nm, g3)"
proof -
  define args where "args = (case g3 of None \<Rightarrow> [] | Some raw \<Rightarrow> ''('' @ raw @ '')'')"
  define tail where "tail = args @ ws2 @ '':'' @ rest"
  define l where "l = ws @ ''def'' @ ws1 @ nm @ tail"
  obtain n ns where nm: "nm = n # ns" using assms(4) by (cases nm) auto
  have n: "isIdentStart n" using assms(5) nm by simp
  have nsp: "\<not> isSpace n" by (rule isIdentStart_not_space[OF n])
  obtain t ts where tail: "tail = t # ts" and t: "\<not> isIdentChar t"
  proof (cases g3)
    case None
    show ?thesis
    proof (cases ws2)
      case Nil
      then show ?thesis using that[of "CHR '':''" rest] None
        by (simp add: tail_def args_def isIdentChar_def)
    next
      case (Cons a as)
      then have "isSpace a" using assms(7) by simp
      then show ?thesis using that[of a "as @ '':'' @ rest"] None Cons
        by (simp add: tail_def args_def isSpace_not_ident)
    qed
  next
    case (Some raw)
    then show ?thesis using that[of "CHR ''(''" "raw @ '')'' @ ws2 @ '':'' @ rest"]
      by (simp add: tail_def args_def isIdentChar_def)
  qed
  have a1: "takeWhile isSpace l = ws" and a2: "dropWhile isSpace l = ''def'' @ ws1 @ nm @ tail"
    using assms(1) by (simp_all add: l_def takeWhile_append2 dropWhile_append2 isSpace_def)
  have a3: "takeWhile isSpace (ws1 @ nm @ tail) = ws1" and a4: "dropWhile isSpace (ws1 @ nm @ tail) = nm @ tail"
    using assms(3) nsp by (simp_all add: nm takeWhile_append2 dropWhile_append2)
  have a5: "takeWhile isIdentChar (nm @ tail) = nm" and a6: "dropWhile isIdentChar (nm @ tail) = tail"
    using assms(6) t by (simp_all add: tail takeWhile_append2 dropWhile_append2)
  have fin: "(case (if startsWith tail ''('' \<and> CHR '')'' \<in> set (drop 1 tail)
                 then (Some (takeWhile (\<lambda>c. c \<noteq> CHR '')'') (drop 1 tail)),
                       drop 1 (dropWhile (\<lambda>c. c \<noteq> CHR '')'') (drop 1 tail)))
                 else (None, tail)) of (g, r5) \<Rightarrow>
               if startsWith (dropWhile isSpace r5) '':'' then Some (ws, nm, g) else None)
             = Some (ws, nm, g3)"
  proof (cases g3)
    case None
    have "tail = ws2 @ '':'' @ rest" using None by (simp add: tail_def args_def)
    moreover have "\<not> startsWith (ws2 @ '':'' @ rest) ''(''"
      using assms(7) by (cases ws2) (auto simp: startsWith_def isSpace_def)
    moreover have "dropWhile isSpace (ws2 @ '':'' @ rest) = '':'' @ rest"
      using assms(7) by (simp add: dropWhile_append2 isSpace_def)
    ultimately show ?thesis using None by (simp add: startsWith_def)
  next
    case (Some raw)
    have tl: "tail = ''('' @ raw @ '')'' @ ws2 @ '':'' @ rest" using Some by (simp add: tail_def args_def)
    have raw: "CHR '')'' \<notin> set raw" using assms(8) Some by simp
    have raw': "\<forall>x\<in>set raw. x \<noteq> CHR '')''" using raw by auto
    have b1: "takeWhile (\<lambda>c. c \<noteq> CHR '')'') (raw @ '')'' @ ws2 @ '':'' @ rest) = raw"
      using takeWhile_stop[OF raw', of "CHR '')''" "ws2 @ '':'' @ rest"] by simp
    have b2: "dropWhile (\<lambda>c. c \<noteq> CHR '')'') (raw @ '')'' @ ws2 @ '':'' @ rest) = '')'' @ ws2 @ '':'' @ rest"
      using dropWhile_stop[OF raw', of "CHR '')''" "ws2 @ '':'' @ rest"] by simp
    have b3: "dropWhile isSpace (ws2 @ '':'' @ rest) = '':'' @ rest"
      using assms(7) by (simp add: dropWhile_append2 isSpace_def)
    show ?thesis unfolding tl using Some b1 b2 b3 by (simp add: startsWith_def)
  qed
  have d1: "startsWith (''def'' @ ws1 @ nm @ tail) ''def''" by (simp add: startsWith_def)
  have d2: "drop 3 (''def'' @ ws1 @ nm @ tail) = ws1 @ nm @ tail" by simp
  have d3: "nm @ tail \<noteq> []" using assms(4) by simp
  have d4: "isIdentStart (hd (nm @ tail))" using assms(4,5) by simp
  have "defRegex_exec l = Some (ws, nm, g3)"
    unfolding defRegex_exec_def Let_def a1 a2 d2 a3 a4 a5 a6
    by (simp only: d1 d3 d4 assms(2) fin simp_thms if_True if_False)
  then show ?thesis by (simp add: l_def tail_def args_def)
qed

lemma absentColon_no_match: "absentColon l \<Longrightarrow> defRegex_exec l = None"
proof (rule ccontr)
  assume a: "absentColon l" and "defRegex_exec l \<noteq> None"
  then obtain g1 g2 g3 where "defRegex_exec l = Some (g1, g2, g3)" by (cases "defRegex_exec l") auto
  from defRegex_exec_sound[OF this] have "CHR '':'' \<in> set l" by auto
  then show False using a by (simp add: absentColon_def)
qed

lemma unclosedParenthesis_no_match: "unclosedParenthesis l \<Longrightarrow> defRegex_exec l = None"
proof (rule ccontr)
  assume a: "unclosedParenthesis l" and "defRegex_exec l \<noteq> None"
  then obtain g1 g2 g3 where "defRegex_exec l = Some (g1, g2, g3)" by (cases "defRegex_exec l") auto
  from defRegex_exec_sound[OF this] obtain ws1 ws2 rest where
    l: "l = g1 @ ''def'' @ ws1 @ g2 @ (case g3 of None \<Rightarrow> [] | Some raw \<Rightarrow> ''('' @ raw @ '')'')
                 @ ws2 @ '':'' @ rest"
    and s: "\<forall>c\<in>set g1. isSpace c" "\<forall>c\<in>set ws1. isSpace c" "\<forall>c\<in>set g2. isIdentChar c" "\<forall>c\<in>set ws2. isSpace c"
    by blast
  show False
  proof (cases g3)
    case (Some raw)
    then have "CHR '')'' \<in> set l" by (subst l) simp
    then show False using a by (simp add: unclosedParenthesis_def)
  next
    case None
    define pre where "pre = g1 @ ''def'' @ ws1 @ g2 @ ws2"
    have all: "\<forall>c\<in>set pre. c \<noteq> CHR '':'' \<and> c \<noteq> CHR ''(''"
      using s by (auto simp: pre_def isSpace_def isIdentChar_def Let_def)
    have "l = pre @ CHR '':'' # rest" using l None by (simp add: pre_def)
    then have "takeWhile (\<lambda>c. c \<noteq> CHR '':'') l = pre"
      using all takeWhile_stop[of pre "\<lambda>c. c \<noteq> CHR '':''" "CHR '':''" rest] by simp
    then show False using a all by (auto simp: unclosedParenthesis_def)
  qed
qed

section \<open>Totality and malformed headers\<close>

text \<open>
  Claim C9, as stated, fails for a header with unbalanced parentheses that closes one
  parenthesis: in \<^verbatim>\<open>def f((a): .\<close> the class \<^verbatim>\<open>[^)]*\<close> takes the second \<^verbatim>\<open>(\<close> into the raw
  argument text, the pattern matches and the line contributes a record.
\<close>
theorem unbalanced_parentheses_counterexample:
  "count_list ''def f((a): .'' (CHR ''('') \<noteq> count_list ''def f((a): .'' (CHR '')'') \<and>
   parse ''def f((a): .'' =
     Inr [\<lparr>name = ''f'', valueArgs = [], filterArgs = [''(a''], startLine = 0, endLine = 0\<rparr>]"
  by code_simp

text \<open>
  Claim C9, amended. \<^verbatim>\<open>parse\<close> returns a list of records for every text and never raises
  (every read \<^verbatim>\<open>lines[j]\<close> is in range). Every record starts at a line that the header
  pattern matches, so a line that fails the pattern contributes no record. A line without
  a colon fails the pattern, and so does a line with an opening parenthesis before its
  first colon and no closing parenthesis.
\<close>
theorem parse_total:
  "\<exists>fs. parse txt = Inr fs \<and>
     (\<forall>r\<in>set fs. startLine r < length (splitLines txt) \<and>
                 defRegex_exec (splitLines txt ! startLine r) \<noteq> None) \<and>
     (\<forall>i<length (splitLines txt).
        absentColon (splitLines txt ! i) \<or> unclosedParenthesis (splitLines txt ! i) \<longrightarrow>
        defRegex_exec (splitLines txt ! i) = None \<and> (\<forall>r\<in>set fs. startLine r \<noteq> i))"
proof -
  define fs where "fs = map (recordAt (splitLines txt)) (headerLines (splitLines txt))"
  have p: "parse txt = Inr fs" by (simp add: parse_closed fs_def)
  have a: "\<forall>r\<in>set fs. startLine r < length (splitLines txt) \<and>
                 defRegex_exec (splitLines txt ! startLine r) \<noteq> None"
    using parse_set(1,2)[OF p] by (auto simp: isHeaderAt_def)
  have b: "defRegex_exec (splitLines txt ! i) = None \<and> (\<forall>r\<in>set fs. startLine r \<noteq> i)"
    if "absentColon (splitLines txt ! i) \<or> unclosedParenthesis (splitLines txt ! i)" for i
  proof -
    have n: "defRegex_exec (splitLines txt ! i) = None"
      using that absentColon_no_match unclosedParenthesis_no_match by blast
    then show ?thesis using a by auto
  qed
  show ?thesis using p a b by blast
qed

theorem parse_total_witness:
  "parse malformed_text = Inr [malformed_h] \<and>
   unclosedParenthesis (splitLines malformed_text ! 0) \<and>
   absentColon (splitLines malformed_text ! 1) \<and>
   defRegex_exec (splitLines malformed_text ! 0) = None \<and>
   defRegex_exec (splitLines malformed_text ! 1) = None \<and>
   startLine malformed_h = 2"
proof -
  have p: "parse malformed_text = Inr [malformed_h]" by code_simp
  have u: "unclosedParenthesis (splitLines malformed_text ! 0)" by code_simp
  have c: "absentColon (splitLines malformed_text ! 1)" by code_simp
  have n: "length (splitLines malformed_text) = 3" by code_simp
  have s: "startLine malformed_h = 2" by code_simp
  from parse_total[of malformed_text] obtain fs where
    fs: "parse malformed_text = Inr fs" and
    m: "\<forall>i<length (splitLines malformed_text).
        absentColon (splitLines malformed_text ! i) \<or> unclosedParenthesis (splitLines malformed_text ! i) \<longrightarrow>
        defRegex_exec (splitLines malformed_text ! i) = None \<and> (\<forall>r\<in>set fs. startLine r \<noteq> i)"
    by blast
  have "defRegex_exec (splitLines malformed_text ! 0) = None" using m u n by simp
  moreover have "defRegex_exec (splitLines malformed_text ! 1) = None" using m c n by simp
  ultimately show ?thesis using p u c s by simp
qed

section \<open>Completion items\<close>

lemma fold_push_map: "fold (\<lambda>x acc. acc @ [g x]) xs acc0 = acc0 @ map g xs"
  by (induction xs arbitrary: acc0) auto

lemma fold_push_filter:
  "fold (\<lambda>x acc. if P x then acc @ [g x] else acc) xs acc0 = acc0 @ map g (filter P xs)"
  by (induction xs arbitrary: acc0) auto

lemma translate_back:
  "translate (line, character) 0 (- 1) =
     (if character = 0 then Inl IllegalArgument else Inr (line, character - 1))"
  by (auto simp: translate_def nat_diff_distrib)

lemma valueArgsLoop_returns:
  "character > 0 \<Longrightarrow>
   valueArgsLoop cf (line, character) rangeText args acc = Inr (acc @ map (valueItem cf rangeText) args)"
  by (induction args arbitrary: acc) (simp_all add: valueArgStep_def translate_back)

lemma valueArgsLoop_raises:
  "args \<noteq> [] \<Longrightarrow> valueArgsLoop cf (line, 0) rangeText args acc = Inl IllegalArgument"
  by (cases args) (simp_all add: valueArgStep_def translate_back)

text \<open>
  When the cursor is not at column 0, or the enclosing definition has no value parameter,
  the provider returns, and its items come in this order: for the enclosing definition (the
  first record whose range contains the cursor line), one item per value parameter, then one
  item per filter parameter, then one item for every record whose name differs from the
  name of the enclosing definition (every record when there is none), then one item for
  every built-in name.
\<close>

lemma provideCompletionItems_closed:
  assumes "parse txt = Inr fs"
    and "character > 0 \<or> (case getContextFunction fs line of None \<Rightarrow> True | Some cf \<Rightarrow> valueArgs cf = [])"
  shows "provideCompletionItems builtins txt line character rangeText =
     Inr ((case getContextFunction fs line of
             None \<Rightarrow> []
           | Some cf \<Rightarrow>
               map (valueItem cf (if character > 0 then rangeText else [])) (valueArgs cf) @
               map (filterItem cf) (filterArgs cf)) @
          map functionItem
            (filter (\<lambda>f. case getContextFunction fs line of None \<Rightarrow> True | Some cf \<Rightarrow> name f \<noteq> name cf) fs) @
          map builtinItem builtins)"
proof -
  define cur where "cur = getContextFunction fs line"
  define cb where "cb = (if character > 0 then rangeText else [])"
  define first where "first =
     (case cur of
        None \<Rightarrow> Inr []
      | Some cf \<Rightarrow>
          (case valueArgsLoop cf (line, character) rangeText (valueArgs cf) [] of
             Inl err \<Rightarrow> Inl err
           | Inr completions \<Rightarrow>
               Inr (fold (\<lambda>arg acc. acc @ [filterItem cf arg]) (filterArgs cf) completions)))"
  have unf: "provideCompletionItems builtins txt line character rangeText =
     (case first of
        Inl err \<Rightarrow> Inl err
      | Inr completions1 \<Rightarrow>
          Inr (fold (\<lambda>b acc. acc @ [builtinItem b]) builtins
                 (fold (\<lambda>f acc. if (case cur of None \<Rightarrow> True | Some cf \<Rightarrow> name f \<noteq> name cf)
                                 then acc @ [functionItem f] else acc) fs completions1)))"
    unfolding provideCompletionItems_def assms(1) cur_def first_def getContextFunction_def
    by (simp only: Let_def sum.case)
  have first: "first = Inr (case cur of None \<Rightarrow> []
                 | Some cf \<Rightarrow> map (valueItem cf cb) (valueArgs cf) @ map (filterItem cf) (filterArgs cf))"
  proof (cases cur)
    case None
    then show ?thesis by (simp add: first_def)
  next
    case (Some cf)
    have "valueArgsLoop cf (line, character) rangeText (valueArgs cf) [] =
            Inr (map (valueItem cf cb) (valueArgs cf))"
    proof (cases "character > 0")
      case True
      then show ?thesis using valueArgsLoop_returns[OF True, of cf line rangeText "valueArgs cf" "[]"]
        by (simp add: cb_def)
    next
      case False
      then have "valueArgs cf = []" using assms(2) Some by (simp add: cur_def)
      then show ?thesis by simp
    qed
    then show ?thesis using Some by (simp add: first_def fold_push_map)
  qed
  show ?thesis
    unfolding unf first cur_def[symmetric] cb_def[symmetric]
    by (simp only: sum.case fold_push_map fold_push_filter append.assoc)
qed

lemma provideCompletionItems_raises:
  assumes "parse txt = Inr fs" and "getContextFunction fs line = Some cf" and "valueArgs cf \<noteq> []"
  shows "provideCompletionItems builtins txt line 0 rangeText = Inl IllegalArgument"
proof -
  have f: "find (\<lambda>f. startLine f \<le> line \<and> line \<le> endLine f) fs = Some cf"
    using assms(2) by (simp add: getContextFunction_def)
  show ?thesis
    unfolding provideCompletionItems_def assms(1)
    by (simp add: Let_def f valueArgsLoop_raises[OF assms(3)])
qed

lemma completion_items:
  "startsWith (label (valueItem cf charBeforeCursor arg)) ''$'' \<and>
   sortText (valueItem cf charBeforeCursor arg) = Some ''0000'' \<and>
   label (filterItem cf arg) = arg \<and> sortText (filterItem cf arg) = Some ''0001'' \<and>
   label (functionItem f) = name f \<and> sortText (functionItem f) = None \<and>
   label (builtinItem b) = b \<and> sortText (builtinItem b) = None"
  by (simp add: valueItem_def filterItem_def functionItem_def builtinItem_def Let_def startsWith_def)

lemma completion_example_parameters:
  "provideCompletionItems [''length'', ''map''] example_text 1 3 ''$'' =
     Inr [\<lparr>label = ''$a'', kind = Variable, detail = Some ''Value parameter of foo'',
            sortText = Some ''0000'', insertText = Some (PlainText ''a''), filterText = Some ''a''\<rparr>,
          \<lparr>label = ''b'', kind = Variable, detail = Some ''Filter parameter of foo'',
            sortText = Some ''0001'', insertText = Some (PlainText ''b''), filterText = None\<rparr>,
          \<lparr>label = ''bar'', kind = Function, detail = Some ''User defined function'',
            sortText = None, insertText = Some (PlainText ''bar''), filterText = None\<rparr>,
          \<lparr>label = ''length'', kind = Function, detail = None, sortText = None,
            insertText = None, filterText = None\<rparr>,
          \<lparr>label = ''map'', kind = Function, detail = None, sortText = None,
            insertText = None, filterText = None\<rparr>]"
  by code_simp

lemma completion_example_snippet:
  "provideCompletionItems [''length'', ''map''] example_text 3 0 [] =
     Inr [\<lparr>label = ''foo'', kind = Function, detail = Some ''User defined function'',
            sortText = None, insertText = Some (SnippetString ''foo(${1:a}; ${2:b})''),
            filterText = None\<rparr>,
          \<lparr>label = ''length'', kind = Function, detail = None, sortText = None,
            insertText = None, filterText = None\<rparr>,
          \<lparr>label = ''map'', kind = Function, detail = None, sortText = None,
            insertText = None, filterText = None\<rparr>]"
  by code_simp

text \<open>
  Claim C8. The provider is to return its items, in the fixed order, for every document
  text and every cursor position. The code does not: the callback of the loop over the
  value parameters builds the range in front of the cursor with
  \<^verbatim>\<open>position.translate(0, -1)\<close> before it tests \<^verbatim>\<open>position.character > 0\<close>, so with the
  cursor at column 0 of a line inside a definition that has a value parameter the host
  raises and no item is returned. On the example text, line 1 is in the range of \<^verbatim>\<open>foo\<close>,
  which has the value parameter \<^verbatim>\<open>$a\<close>; at column 0 of that line the provider raises,
  whatever the built-in names and the text of the range are.
\<close>
theorem completion_raises_at_column_zero:
  "parse example_text = Inr [example_foo, example_bar] \<and>
   getContextFunction [example_foo, example_bar] 1 = Some example_foo \<and>
   valueArgs example_foo = [''$a''] \<and>
   provideCompletionItems builtins example_text 1 0 rangeText = Inl IllegalArgument"
proof -
  have p: "parse example_text = Inr [example_foo, example_bar]" by (rule parse_example)
  have g: "getContextFunction [example_foo, example_bar] 1 = Some example_foo" by code_simp
  have v: "valueArgs example_foo = [''$a'']" by (simp add: example_foo_def)
  have n: "valueArgs example_foo \<noteq> []" by (simp add: v)
  show ?thesis
    using provideCompletionItems_raises[OF p g n, of builtins rangeText] p g v by simp
qed

end
